theory Spec2Isabelle
  imports Main "HOL-Library.Word"
begin

unbundle bit_operations_syntax

section \<open>Data model\<close>

text \<open>
  The model follows the LP64 build of \<^verbatim>\<open>fishhook.c\<close>: pointers, \<^verbatim>\<open>uintptr_t\<close>,
  \<^verbatim>\<open>intptr_t\<close> and \<^verbatim>\<open>size_t\<close> are 64-bit words, \<^verbatim>\<open>uint\<close> and \<^verbatim>\<open>uint32_t\<close> are
  32-bit words. \<^verbatim>\<open>NULL\<close> is the pointer 0.
\<close>

type_synonym ptr = "64 word"

text \<open>The terminating byte of a C string.\<close>

definition nul :: char where
  "nul = CHR 0x00"

text \<open>
  Modelled from the spec: \<^verbatim>\<open>struct rebinding\<close> is declared in \<^verbatim>\<open>fishhook.h\<close>, which is
  not among the sources. The specification gives the record as
  \<^verbatim>\<open>{ const char *name; void *replacement; void **original_slot; }\<close>; the code reads
  the third field under the name \<^verbatim>\<open>replaced\<close>.
  The field \<open>name\<close> holds the bytes of the C string the pointer refers to, without its
  terminator; the buffer the code reads is \<open>name r @ [nul]\<close>.
\<close>

record rebinding =
  name :: string
  replacement :: ptr
  replaced :: ptr

text \<open>
  \<^verbatim>\<open>struct rebindings_entry\<close>: a node of the linked registry. The list of nodes stands
  for the chain of \<^verbatim>\<open>next\<close> pointers, head first; \<open>entry_ptr\<close> is the address of the node
  and \<open>rebindings_ptr\<close> the address of its copied vector; \<^verbatim>\<open>rebindings_nel\<close> is the length
  of \<open>rebindings\<close>.
\<close>

record rebindings_entry =
  entry_ptr :: ptr
  rebindings_ptr :: ptr
  rebindings :: "rebinding list"

text \<open>The value of a registry head pointer: \<^verbatim>\<open>NULL\<close> for the empty chain.\<close>

fun head_ptr :: "rebindings_entry list \<Rightarrow> ptr" where
  "head_ptr [] = 0"
| "head_ptr (e # es) = entry_ptr e"

text \<open>
  The Mach-O structures, with the fields the code reads. A segment name is the C string
  held in the \<^verbatim>\<open>char[16]\<close> field, so that \<^verbatim>\<open>strcmp(segname, s) == 0\<close> is the equality
  of the strings.
\<close>

record nlist_t =
  n_strx :: "32 word"

record section_t =
  sectname :: string
  segname :: string
  addr :: "64 word"
  size_s :: "64 word"
  flags :: "32 word"
  reserved1 :: "32 word"

record segment_command_t =
  seg_segname :: string
  vmaddr :: "64 word"
  fileoff :: "64 word"
  sections :: "section_t list"

record symtab_command =
  symoff :: "32 word"
  stroff :: "32 word"

record dysymtab_command =
  indirectsymoff :: "32 word"
  nindirectsyms :: "32 word"

text \<open>
  A load command, tagged by its \<^verbatim>\<open>cmd\<close> field: \<^verbatim>\<open>LC_SEGMENT_64\<close>, \<^verbatim>\<open>LC_SYMTAB\<close>,
  \<^verbatim>\<open>LC_DYSYMTAB\<close>, or any other command code. The section headers that follow a
  segment command in memory are its \<open>sections\<close> (\<^verbatim>\<open>nsects\<close> is their number), and the
  command stream of a header is a list (\<^verbatim>\<open>ncmds\<close> is its length).
\<close>

datatype load_command =
    LC_SEGMENT_ARCH_DEPENDENT segment_command_t
  | LC_SYMTAB symtab_command
  | LC_DYSYMTAB dysymtab_command
  | LC_OTHER "32 word"

text \<open>
  The process as the engine sees it.
  \<^item> \<open>mem\<close>: the pointer-sized cells of the address space, by address (the indirect
    pointer slots and the cells the \<^verbatim>\<open>replaced\<close> pointers refer to);
  \<^item> \<open>protection\<close>: what \<^verbatim>\<open>vm_region\<close> reports as the protection at an address
    (\<open>None\<close>: the call does not return \<^verbatim>\<open>KERN_SUCCESS\<close>);
  \<^item> \<open>allocated\<close>: the live \<^verbatim>\<open>malloc\<close> blocks;
  \<^item> \<open>rebindings_head\<close>: the global \<^verbatim>\<open>_rebindings_head\<close>;
  \<^item> \<open>add_image_funcs\<close>: how many times \<^verbatim>\<open>_rebind_symbols_for_image\<close> has been
    registered with \<^verbatim>\<open>_dyld_register_func_for_add_image\<close>;
  \<^item> \<open>dyld_images\<close>: the loaded images, (header, slide), by index;
  \<^item> \<open>dladdr\<close>: whether \<^verbatim>\<open>dladdr\<close> resolves the address (returns non-zero);
  \<^item> \<open>load_commands\<close>: the load commands of the Mach-O header at an address;
  \<^item> \<open>nlist_at\<close>, \<open>chars_at\<close>, \<open>uint32_at\<close>: the arrays found at an address of the
    \<^verbatim>\<open>__LINKEDIT\<close> data, as far as they extend.
  The engine writes to \<open>mem\<close> and changes \<open>protection\<close>; the headers and the tables are
  read only, and are taken not to overlap the cells the engine writes. Cells are told
  apart by their addresses.
\<close>

record process =
  mem :: "ptr \<Rightarrow> ptr"
  protection :: "ptr \<Rightarrow> 32 word option"
  allocated :: "ptr set"
  rebindings_head :: "rebindings_entry list"
  add_image_funcs :: nat
  dyld_images :: "(ptr \<times> ptr) list"
  dladdr :: "ptr \<Rightarrow> bool"
  load_commands :: "ptr \<Rightarrow> load_command list"
  nlist_at :: "ptr \<Rightarrow> nlist_t list"
  chars_at :: "ptr \<Rightarrow> char list"
  uint32_at :: "ptr \<Rightarrow> 32 word list"

subsection \<open>Constants of the system headers\<close>

text \<open>
  The values are those of \<^verbatim>\<open>mach-o/loader.h\<close>, \<^verbatim>\<open>mach/vm_prot.h\<close> and
  \<^verbatim>\<open>sys/mman.h\<close>.
\<close>

definition SEG_DATA :: string where
  "SEG_DATA = ''__DATA''"

definition SEG_DATA_CONST :: string where
  "SEG_DATA_CONST = ''__DATA_CONST''"

definition SEG_LINKEDIT :: string where
  "SEG_LINKEDIT = ''__LINKEDIT''"

definition INDIRECT_SYMBOL_LOCAL :: "32 word" where
  "INDIRECT_SYMBOL_LOCAL = 0x80000000"

definition INDIRECT_SYMBOL_ABS :: "32 word" where
  "INDIRECT_SYMBOL_ABS = 0x40000000"

definition SECTION_TYPE :: "32 word" where
  "SECTION_TYPE = 0x000000ff"

definition S_NON_LAZY_SYMBOL_POINTERS :: "32 word" where
  "S_NON_LAZY_SYMBOL_POINTERS = 0x6"

definition S_LAZY_SYMBOL_POINTERS :: "32 word" where
  "S_LAZY_SYMBOL_POINTERS = 0x7"

definition VM_PROT_READ :: "32 word" where
  "VM_PROT_READ = 0x01"

definition VM_PROT_WRITE :: "32 word" where
  "VM_PROT_WRITE = 0x02"

definition VM_PROT_EXECUTE :: "32 word" where
  "VM_PROT_EXECUTE = 0x04"

definition PROT_READ :: "32 word" where
  "PROT_READ = 0x01"

definition PROT_WRITE :: "32 word" where
  "PROT_WRITE = 0x02"

definition PROT_EXEC :: "32 word" where
  "PROT_EXEC = 0x04"

section \<open>Reading memory\<close>

text \<open>
  An array read \<^verbatim>\<open>a[i]\<close>. The code checks no bound; a read past the end of the array
  is undefined behaviour of the C program, and the model gives \<open>None\<close> for it.
\<close>

definition read_at :: "'a list \<Rightarrow> nat \<Rightarrow> 'a option" where
  "read_at xs i = (if i < length xs then Some (xs ! i) else None)"

text \<open>
  \<^verbatim>\<open>strcmp\<close> on two buffers: bytes are compared as \<^verbatim>\<open>unsigned char\<close> up to the first
  difference or a common terminator. Reading past the end of a buffer gives \<open>None\<close>.
\<close>

fun strcmp :: "char list \<Rightarrow> char list \<Rightarrow> int option" where
  "strcmp (a # as) (b # bs) =
     (if a = b then (if a = nul then Some 0 else strcmp as bs)
      else Some (int (of_char a) - int (of_char b)))"
| "strcmp [] bs = None"
| "strcmp as [] = None"

section \<open>Counting loops\<close>

text \<open>
  \<^verbatim>\<open>for (uint i = 0; i < n; i++) body\<close>, where the counter is a 32-bit \<^verbatim>\<open>uint\<close>
  and the bound \<open>n\<close> a 64-bit quantity: the comparison is made on the values, and
  \<open>i + 1\<close> wraps around at \<open>2 ^ 32\<close>, so the loop does not return when the bound is
  larger and no iteration leaves it. The body returns a new state and a flag that says
  whether it leaves the loop (a \<^verbatim>\<open>goto\<close> out of it); \<open>None\<close> is a body that does not
  return. The flag of the loop's result says whether the loop was left in this way.
\<close>

partial_function (option) uint_for ::
  "nat \<Rightarrow> (32 word \<Rightarrow> 's \<Rightarrow> (bool \<times> 's) option) \<Rightarrow> 32 word \<Rightarrow> 's \<Rightarrow> (bool \<times> 's) option" where
  "uint_for n body i s =
     (if unat i < n then
        (case body i s of
           None \<Rightarrow> None
         | Some (leave, s') \<Rightarrow>
             if leave then Some (True, s') else uint_for n body (i + 1) s')
      else Some (False, s))"

section \<open>Platform primitives\<close>

text \<open>
  \<^verbatim>\<open>get_protection\<close>: the protection \<^verbatim>\<open>vm_region_64\<close> reports for the region at the
  address, and \<^verbatim>\<open>VM_PROT_READ\<close> when the call fails.
\<close>

definition get_protection :: "process \<Rightarrow> ptr \<Rightarrow> 32 word" where
  "get_protection p sectionStart =
     (case protection p sectionStart of
        Some info_protection \<Rightarrow> info_protection
      | None \<Rightarrow> VM_PROT_READ)"

text \<open>
  \<^verbatim>\<open>mprotect(a, len, prot)\<close>: the code ignores the return value and relies on the
  platform to honour the request, so the call sets the protection of every address of
  \<open>[a, a + len)\<close>. The \<^verbatim>\<open>PROT_\<close> bits and the kernel's \<^verbatim>\<open>VM_PROT_\<close> bits have the
  same numeric values.
\<close>

definition mprotect :: "ptr \<Rightarrow> 64 word \<Rightarrow> 32 word \<Rightarrow> process \<Rightarrow> process" where
  "mprotect a len prot p =
     p\<lparr>protection := (\<lambda>x. if x - a < len then Some prot else protection p x)\<rparr>"

text \<open>
  \<^verbatim>\<open>malloc\<close> and \<^verbatim>\<open>free\<close>. The address \<^verbatim>\<open>malloc\<close> returns is an input of the model
  (0 when the allocation fails).
\<close>

definition malloc :: "ptr \<Rightarrow> process \<Rightarrow> process" where
  "malloc a p = (if a = 0 then p else p\<lparr>allocated := insert a (allocated p)\<rparr>)"

definition free :: "ptr \<Rightarrow> process \<Rightarrow> process" where
  "free a p = (if a = 0 then p else p\<lparr>allocated := allocated p - {a}\<rparr>)"

section \<open>The registry\<close>

text \<open>
  \<^verbatim>\<open>prepend_rebindings(rebindings_head, rebindings, nel)\<close>. \<open>new_entry\<close> and \<open>new_vec\<close>
  are the results of the two \<^verbatim>\<open>malloc\<close> calls (the second is made only when the first
  succeeds). The result is the return value, the new value of \<^verbatim>\<open>*rebindings_head\<close>
  and the process.
\<close>

definition prepend_rebindings ::
  "ptr \<Rightarrow> ptr \<Rightarrow> rebindings_entry list \<Rightarrow> rebinding list \<Rightarrow> process
   \<Rightarrow> int \<times> rebindings_entry list \<times> process" where
  "prepend_rebindings new_entry new_vec rebindings_head_v rebindings_v p =
     (let p1 = malloc new_entry p in
      if new_entry = 0 then (- 1, rebindings_head_v, p1)
      else
        let p2 = malloc new_vec p1 in
        if new_vec = 0 then (- 1, rebindings_head_v, free new_entry p2)
        else
          (0,
           \<lparr>entry_ptr = new_entry, rebindings_ptr = new_vec, rebindings = rebindings_v\<rparr>
             # rebindings_head_v,
           p2))"

section \<open>The section rewriter\<close>

text \<open>
  Lines 149 to 153: the capture of the old binding into \<^verbatim>\<open>*replaced\<close>, then the
  rewrite of the slot.
\<close>

definition rewrite_binding :: "rebinding \<Rightarrow> ptr \<Rightarrow> process \<Rightarrow> process" where
  "rewrite_binding r slot p =
     (let p1 = (if replaced r \<noteq> 0 \<and> mem p slot \<noteq> replacement r
                then p\<lparr>mem := (mem p)(replaced r := mem p slot)\<rparr>
                else p)
      in p1\<lparr>mem := (mem p1)(slot := replacement r)\<rparr>)"

text \<open>
  The test of lines 146 and 147,
  \<^verbatim>\<open>symbol_name_longer_than_1 && strcmp(&symbol_name[1], cur->rebindings[j].name) == 0\<close>;
  \<^verbatim>\<open>strcmp\<close> is called only when the flag is set.
\<close>

definition name_test :: "bool \<Rightarrow> char list \<Rightarrow> rebinding \<Rightarrow> bool option" where
  "name_test longer symbol_name r =
     (if longer then
        (case strcmp (drop 1 symbol_name) (name r @ [nul]) of
           None \<Rightarrow> None
         | Some c \<Rightarrow> Some (c = 0))
      else Some False)"

text \<open>
  \<^verbatim>\<open>for (uint j = 0; j < cur->rebindings_nel; j++)\<close>: the body, then the loop. The
  flag is set when the body leaves through \<^verbatim>\<open>goto symbol_loop\<close>, after a match.
\<close>

definition rebindings_body ::
  "bool \<Rightarrow> char list \<Rightarrow> ptr \<Rightarrow> rebinding list \<Rightarrow> 32 word \<Rightarrow> process
   \<Rightarrow> (bool \<times> process) option" where
  "rebindings_body longer symbol_name slot rs j p =
     (case name_test longer symbol_name (rs ! unat j) of
        None \<Rightarrow> None
      | Some matched \<Rightarrow>
          if matched then Some (True, rewrite_binding (rs ! unat j) slot p)
          else Some (False, p))"

definition rebindings_for ::
  "bool \<Rightarrow> char list \<Rightarrow> ptr \<Rightarrow> rebinding list \<Rightarrow> process \<Rightarrow> (bool \<times> process) option" where
  "rebindings_for longer symbol_name slot rs p =
     uint_for (length rs) (rebindings_body longer symbol_name slot rs) 0 p"

text \<open>\<^verbatim>\<open>while (cur) { ...; cur = cur->next; }\<close>\<close>

fun rebindings_while ::
  "bool \<Rightarrow> char list \<Rightarrow> ptr \<Rightarrow> rebindings_entry list \<Rightarrow> process \<Rightarrow> process option" where
  "rebindings_while longer symbol_name slot [] p = Some p"
| "rebindings_while longer symbol_name slot (cur # next) p =
     (case rebindings_for longer symbol_name slot (rebindings cur) p of
        None \<Rightarrow> None
      | Some (found, p') \<Rightarrow>
          if found then Some p' else rebindings_while longer symbol_name slot next p')"

text \<open>
  \<^verbatim>\<open>bool symbol_name_longer_than_1 = symbol_name[0] && symbol_name[1];\<close>
  The second byte is read only when the first is not zero.
\<close>

definition symbol_name_longer_than_1 :: "char list \<Rightarrow> bool option" where
  "symbol_name_longer_than_1 symbol_name =
     (case read_at symbol_name 0 of
        None \<Rightarrow> None
      | Some c0 \<Rightarrow>
          if c0 = nul then Some False
          else (case read_at symbol_name 1 of
                  None \<Rightarrow> None
                | Some c1 \<Rightarrow> Some (c1 \<noteq> nul)))"

text \<open>
  The address of \<^verbatim>\<open>indirect_symbol_bindings[i]\<close>, where
  \<^verbatim>\<open>indirect_symbol_bindings = (void **)((uintptr_t)slide + section->addr)\<close>.
\<close>

definition binding_ptr :: "section_t \<Rightarrow> ptr \<Rightarrow> 32 word \<Rightarrow> ptr" where
  "binding_ptr sect slide i = slide + addr sect + 8 * ucast i"

text \<open>
  One iteration of the loop over the slots of a section, lines 132 to 159, for the
  index \<open>i\<close>.
\<close>

definition symbol_loop ::
  "rebindings_entry list \<Rightarrow> section_t \<Rightarrow> ptr \<Rightarrow> nlist_t list \<Rightarrow> char list
   \<Rightarrow> 32 word list \<Rightarrow> 32 word \<Rightarrow> process \<Rightarrow> process option" where
  "symbol_loop rebindings_v sect slide symtab strtab indirect_symtab i p =
     (case read_at indirect_symtab (unat (reserved1 sect) + unat i) of
        None \<Rightarrow> None
      | Some symtab_index \<Rightarrow>
          if symtab_index = INDIRECT_SYMBOL_ABS \<or> symtab_index = INDIRECT_SYMBOL_LOCAL \<or>
             symtab_index = (INDIRECT_SYMBOL_LOCAL OR INDIRECT_SYMBOL_ABS)
          then Some p
          else
            (case read_at symtab (unat symtab_index) of
               None \<Rightarrow> None
             | Some nl \<Rightarrow>
                 let symbol_name = drop (unat (n_strx nl)) strtab in
                 (case symbol_name_longer_than_1 symbol_name of
                    None \<Rightarrow> None
                  | Some longer \<Rightarrow>
                      rebindings_while longer symbol_name (binding_ptr sect slide i)
                        rebindings_v p)))"

text \<open>\<^verbatim>\<open>for (uint i = 0; i < section->size / sizeof(void *); i++)\<close>\<close>

definition section_for ::
  "rebindings_entry list \<Rightarrow> section_t \<Rightarrow> ptr \<Rightarrow> nlist_t list \<Rightarrow> char list
   \<Rightarrow> 32 word list \<Rightarrow> process \<Rightarrow> (bool \<times> process) option" where
  "section_for rebindings_v sect slide symtab strtab indirect_symtab p =
     uint_for (unat (size_s sect div 8))
       (\<lambda>i p. map_option (Pair False)
          (symbol_loop rebindings_v sect slide symtab strtab indirect_symtab i p))
       0 p"

text \<open>\<^verbatim>\<open>perform_rebinding_with_section\<close>\<close>

definition perform_rebinding_with_section ::
  "rebindings_entry list \<Rightarrow> section_t \<Rightarrow> ptr \<Rightarrow> nlist_t list \<Rightarrow> char list
   \<Rightarrow> 32 word list \<Rightarrow> process \<Rightarrow> process option" where
  "perform_rebinding_with_section rebindings_v sect slide symtab strtab indirect_symtab p =
     (let isDataConst = (segname sect = SEG_DATA_CONST);
          indirect_symbol_bindings = slide + addr sect;
          oldProtection =
            (if isDataConst then get_protection p (head_ptr rebindings_v) else VM_PROT_READ);
          p1 = (if isDataConst
                then mprotect indirect_symbol_bindings (size_s sect) (PROT_READ OR PROT_WRITE) p
                else p)
      in case section_for rebindings_v sect slide symtab strtab indirect_symtab p1 of
           None \<Rightarrow> None
         | Some (left, p2) \<Rightarrow>
             if isDataConst then
               let protection0 = 0;
                   protection1 = (if oldProtection AND VM_PROT_READ \<noteq> 0
                                  then protection0 OR PROT_READ else protection0);
                   protection2 = (if oldProtection AND VM_PROT_WRITE \<noteq> 0
                                  then protection1 OR PROT_WRITE else protection1);
                   protection3 = (if oldProtection AND VM_PROT_EXECUTE \<noteq> 0
                                  then protection2 OR PROT_EXEC else protection2)
               in Some (mprotect indirect_symbol_bindings (size_s sect) protection3 p2)
             else Some p2)"

section \<open>The image walker\<close>

text \<open>
  The first loop over the load commands, lines 191 to 202: the last \<^verbatim>\<open>__LINKEDIT\<close>
  segment command, the last symtab command and the last dynamic symtab command.
\<close>

fun find_commands ::
  "load_command list \<Rightarrow> segment_command_t option \<Rightarrow> symtab_command option
   \<Rightarrow> dysymtab_command option
   \<Rightarrow> segment_command_t option \<times> symtab_command option \<times> dysymtab_command option" where
  "find_commands [] linkedit_segment symtab_cmd dysymtab_cmd =
     (linkedit_segment, symtab_cmd, dysymtab_cmd)"
| "find_commands (LC_SEGMENT_ARCH_DEPENDENT cur_seg_cmd # cmds)
       linkedit_segment symtab_cmd dysymtab_cmd =
     find_commands cmds
       (if seg_segname cur_seg_cmd = SEG_LINKEDIT then Some cur_seg_cmd else linkedit_segment)
       symtab_cmd dysymtab_cmd"
| "find_commands (LC_SYMTAB c # cmds) linkedit_segment symtab_cmd dysymtab_cmd =
     find_commands cmds linkedit_segment (Some c) dysymtab_cmd"
| "find_commands (LC_DYSYMTAB c # cmds) linkedit_segment symtab_cmd dysymtab_cmd =
     find_commands cmds linkedit_segment symtab_cmd (Some c)"
| "find_commands (LC_OTHER c # cmds) linkedit_segment symtab_cmd dysymtab_cmd =
     find_commands cmds linkedit_segment symtab_cmd dysymtab_cmd"

text \<open>
  \<^verbatim>\<open>for (uint j = 0; j < cur_seg_cmd->nsects; j++)\<close>, lines 237 to 247, with its two
  tests of the section type.
\<close>

fun sections_for ::
  "rebindings_entry list \<Rightarrow> section_t list \<Rightarrow> ptr \<Rightarrow> nlist_t list \<Rightarrow> char list
   \<Rightarrow> 32 word list \<Rightarrow> process \<Rightarrow> process option" where
  "sections_for rebindings_v [] slide symtab strtab indirect_symtab p = Some p"
| "sections_for rebindings_v (sect # sects) slide symtab strtab indirect_symtab p =
     (case (if flags sect AND SECTION_TYPE = S_LAZY_SYMBOL_POINTERS
            then perform_rebinding_with_section rebindings_v sect slide symtab strtab
                   indirect_symtab p
            else Some p) of
        None \<Rightarrow> None
      | Some p1 \<Rightarrow>
          (case (if flags sect AND SECTION_TYPE = S_NON_LAZY_SYMBOL_POINTERS
                 then perform_rebinding_with_section rebindings_v sect slide symtab strtab
                        indirect_symtab p1
                 else Some p1) of
             None \<Rightarrow> None
           | Some p2 \<Rightarrow> sections_for rebindings_v sects slide symtab strtab indirect_symtab p2))"

text \<open>The second loop over the load commands, lines 229 to 249.\<close>

fun commands_for ::
  "rebindings_entry list \<Rightarrow> load_command list \<Rightarrow> ptr \<Rightarrow> nlist_t list \<Rightarrow> char list
   \<Rightarrow> 32 word list \<Rightarrow> process \<Rightarrow> process option" where
  "commands_for rebindings_v [] slide symtab strtab indirect_symtab p = Some p"
| "commands_for rebindings_v (LC_SEGMENT_ARCH_DEPENDENT cur_seg_cmd # cmds) slide symtab strtab
       indirect_symtab p =
     (if seg_segname cur_seg_cmd \<noteq> SEG_DATA \<and> seg_segname cur_seg_cmd \<noteq> SEG_DATA_CONST
      then commands_for rebindings_v cmds slide symtab strtab indirect_symtab p
      else
        (case sections_for rebindings_v (sections cur_seg_cmd) slide symtab strtab
                indirect_symtab p of
           None \<Rightarrow> None
         | Some p' \<Rightarrow> commands_for rebindings_v cmds slide symtab strtab indirect_symtab p'))"
| "commands_for rebindings_v (LC_SYMTAB c # cmds) slide symtab strtab indirect_symtab p =
     commands_for rebindings_v cmds slide symtab strtab indirect_symtab p"
| "commands_for rebindings_v (LC_DYSYMTAB c # cmds) slide symtab strtab indirect_symtab p =
     commands_for rebindings_v cmds slide symtab strtab indirect_symtab p"
| "commands_for rebindings_v (LC_OTHER c # cmds) slide symtab strtab indirect_symtab p =
     commands_for rebindings_v cmds slide symtab strtab indirect_symtab p"

text \<open>\<^verbatim>\<open>rebind_symbols_for_image(rebindings, header, slide)\<close>\<close>

definition rebind_symbols_for_image ::
  "rebindings_entry list \<Rightarrow> ptr \<Rightarrow> ptr \<Rightarrow> process \<Rightarrow> process option" where
  "rebind_symbols_for_image rebindings_v header slide p =
     (if \<not> dladdr p header then Some p
      else
        (case find_commands (load_commands p header) None None None of
           (linkedit_segment, symtab_cmd, dysymtab_cmd) \<Rightarrow>
             (case symtab_cmd of
                None \<Rightarrow> Some p
              | Some st \<Rightarrow>
                  (case dysymtab_cmd of
                     None \<Rightarrow> Some p
                   | Some dy \<Rightarrow>
                       (case linkedit_segment of
                          None \<Rightarrow> Some p
                        | Some le \<Rightarrow>
                            if nindirectsyms dy = 0 then Some p
                            else
                              let linkedit_base = slide + vmaddr le - fileoff le;
                                  symtab = nlist_at p (linkedit_base + ucast (symoff st));
                                  strtab = chars_at p (linkedit_base + ucast (stroff st));
                                  indirect_symtab =
                                    uint32_at p (linkedit_base + ucast (indirectsymoff dy))
                              in commands_for rebindings_v (load_commands p header) slide
                                   symtab strtab indirect_symtab p)))))"

section \<open>The entry points\<close>

text \<open>\<^verbatim>\<open>_rebind_symbols_for_image(header, slide)\<close>: the walker on the global registry.\<close>

definition rebind_symbols_for_image_global :: "ptr \<Rightarrow> ptr \<Rightarrow> process \<Rightarrow> process option" where
  "rebind_symbols_for_image_global header slide p =
     rebind_symbols_for_image (rebindings_head p) header slide p"

text \<open>
  \<^verbatim>\<open>for (uint32_t i = 0; i < c; i++)\<close> of \<^verbatim>\<open>rebind_symbols\<close>, over the images
  \<^verbatim>\<open>_dyld_get_image_header(i)\<close>, \<^verbatim>\<open>_dyld_get_image_vmaddr_slide(i)\<close>.
\<close>

fun images_for :: "(ptr \<times> ptr) list \<Rightarrow> process \<Rightarrow> process option" where
  "images_for [] p = Some p"
| "images_for ((header, slide) # images) p =
     (case rebind_symbols_for_image_global header slide p of
        None \<Rightarrow> None
      | Some p' \<Rightarrow> images_for images p')"

text \<open>
  \<^verbatim>\<open>_dyld_register_func_for_add_image(_rebind_symbols_for_image)\<close>: the loader records
  the callback and calls it at once for every image already loaded.
\<close>

definition dyld_register_func_for_add_image :: "process \<Rightarrow> process option" where
  "dyld_register_func_for_add_image p =
     images_for (dyld_images p) (p\<lparr>add_image_funcs := Suc (add_image_funcs p)\<rparr>)"

text \<open>
  \<^verbatim>\<open>rebind_symbols_image(header, slide, rebindings, rebindings_nel)\<close>; \<open>new_entry\<close> and
  \<open>new_vec\<close> are what the two \<^verbatim>\<open>malloc\<close> calls of \<^verbatim>\<open>prepend_rebindings\<close> return.
\<close>

definition rebind_symbols_image ::
  "ptr \<Rightarrow> ptr \<Rightarrow> ptr \<Rightarrow> ptr \<Rightarrow> rebinding list \<Rightarrow> process \<Rightarrow> (int \<times> process) option" where
  "rebind_symbols_image new_entry new_vec header slide rebindings_v p =
     (case prepend_rebindings new_entry new_vec [] rebindings_v p of
        (retval, rebindings_head_v, p1) \<Rightarrow>
          (case rebind_symbols_for_image rebindings_head_v header slide p1 of
             None \<Rightarrow> None
           | Some p2 \<Rightarrow>
               let p3 = (case rebindings_head_v of
                           [] \<Rightarrow> p2
                         | e # es \<Rightarrow> free (rebindings_ptr e) p2);
                   p4 = free (head_ptr rebindings_head_v) p3
               in Some (retval, p4)))"

text \<open>\<^verbatim>\<open>rebind_symbols(rebindings, rebindings_nel)\<close>\<close>

definition rebind_symbols ::
  "ptr \<Rightarrow> ptr \<Rightarrow> rebinding list \<Rightarrow> process \<Rightarrow> (int \<times> process) option" where
  "rebind_symbols new_entry new_vec rebindings_v p =
     (case prepend_rebindings new_entry new_vec (rebindings_head p) rebindings_v p of
        (retval, rebindings_head_v, p1) \<Rightarrow>
          let p2 = p1\<lparr>rebindings_head := rebindings_head_v\<rparr> in
          if retval < 0 then Some (retval, p2)
          else
            (case (if tl (rebindings_head p2) = []
                   then dyld_register_func_for_add_image p2
                   else images_for (dyld_images p2) p2) of
               None \<Rightarrow> None
             | Some p3 \<Rightarrow> Some (retval, p3)))"

section \<open>Notions of the specification\<close>

definition c_string :: "char list \<Rightarrow> string option" where
  "c_string buf = (if nul \<in> set buf then Some (takeWhile (\<lambda>c. c \<noteq> nul) buf) else None)"

definition name_matches :: "char list \<Rightarrow> string \<Rightarrow> bool" where
  "name_matches S N \<longleftrightarrow>
     (case S of c0 # c1 # rest \<Rightarrow> c0 \<noteq> nul \<and> c1 \<noteq> nul | _ \<Rightarrow> False) \<and>
     c_string (drop 1 S) = c_string (N @ [nul])"

definition first_match :: "char list \<Rightarrow> rebindings_entry list \<Rightarrow> rebinding option" where
  "first_match S registry =
     find (\<lambda>r. name_matches S (name r)) (concat (map rebindings registry))"

text \<open>The symbol name of a slot, when the slot has one.\<close>

definition slot_symbol ::
  "section_t \<Rightarrow> nlist_t list \<Rightarrow> char list \<Rightarrow> 32 word list \<Rightarrow> 32 word \<Rightarrow> char list option" where
  "slot_symbol sect symtab strtab indirect_symtab i =
     (case read_at indirect_symtab (unat (reserved1 sect) + unat i) of
        None \<Rightarrow> None
      | Some symtab_index \<Rightarrow>
          if symtab_index \<in> {INDIRECT_SYMBOL_ABS, INDIRECT_SYMBOL_LOCAL,
               INDIRECT_SYMBOL_LOCAL OR INDIRECT_SYMBOL_ABS}
          then None
          else map_option (\<lambda>nl. drop (unat (n_strx nl)) strtab)
                 (read_at symtab (unat symtab_index)))"

definition replaced_targets :: "rebindings_entry list \<Rightarrow> ptr set" where
  "replaced_targets registry =
     set (filter (\<lambda>a. a \<noteq> 0) (map replaced (concat (map rebindings registry))))"

text \<open>
  The \<^verbatim>\<open>mprotect\<close> bits that stand for the read, write and execute bits of a kernel
  protection value.
\<close>

definition prot_of_vm_prot :: "32 word \<Rightarrow> 32 word" where
  "prot_of_vm_prot v =
     (if v AND VM_PROT_READ \<noteq> 0 then PROT_READ else 0) OR
     (if v AND VM_PROT_WRITE \<noteq> 0 then PROT_WRITE else 0) OR
     (if v AND VM_PROT_EXECUTE \<noteq> 0 then PROT_EXEC else 0)"

text \<open>
  The sections an image walk hands to the section rewriter, as the specification
  describes them: the sections of the segment commands named \<^verbatim>\<open>__DATA\<close> or
  \<^verbatim>\<open>__DATA_CONST\<close> whose type is that of lazy or of non-lazy symbol pointers, in the
  order of the load commands.
\<close>

definition pointer_section :: "section_t \<Rightarrow> bool" where
  "pointer_section sect \<longleftrightarrow>
     flags sect AND SECTION_TYPE = S_LAZY_SYMBOL_POINTERS \<or>
     flags sect AND SECTION_TYPE = S_NON_LAZY_SYMBOL_POINTERS"

fun scanned_sections :: "load_command list \<Rightarrow> section_t list" where
  "scanned_sections [] = []"
| "scanned_sections (LC_SEGMENT_ARCH_DEPENDENT seg # cmds) =
     (if seg_segname seg = SEG_DATA \<or> seg_segname seg = SEG_DATA_CONST
      then filter pointer_section (sections seg) else []) @ scanned_sections cmds"
| "scanned_sections (LC_SYMTAB c # cmds) = scanned_sections cmds"
| "scanned_sections (LC_DYSYMTAB c # cmds) = scanned_sections cmds"
| "scanned_sections (LC_OTHER c # cmds) = scanned_sections cmds"

text \<open>The section rewriter applied to each section of a list in turn.\<close>

fun rewrite_sections ::
  "rebindings_entry list \<Rightarrow> section_t list \<Rightarrow> ptr \<Rightarrow> nlist_t list \<Rightarrow> char list
   \<Rightarrow> 32 word list \<Rightarrow> process \<Rightarrow> process option" where
  "rewrite_sections registry [] slide symtab strtab ind p = Some p"
| "rewrite_sections registry (sect # sects) slide symtab strtab ind p =
     (case perform_rebinding_with_section registry sect slide symtab strtab ind p of
        None \<Rightarrow> None
      | Some p' \<Rightarrow> rewrite_sections registry sects slide symtab strtab ind p')"

text \<open>
  The \<^verbatim>\<open>__LINKEDIT\<close> segment commands, the symtab commands and the dynamic symtab
  commands of a load-command stream, in its order.
\<close>

fun linkedit_segments :: "load_command list \<Rightarrow> segment_command_t list" where
  "linkedit_segments [] = []"
| "linkedit_segments (LC_SEGMENT_ARCH_DEPENDENT seg # cmds) =
     (if seg_segname seg = SEG_LINKEDIT then [seg] else []) @ linkedit_segments cmds"
| "linkedit_segments (LC_SYMTAB c # cmds) = linkedit_segments cmds"
| "linkedit_segments (LC_DYSYMTAB c # cmds) = linkedit_segments cmds"
| "linkedit_segments (LC_OTHER c # cmds) = linkedit_segments cmds"

fun symtab_commands :: "load_command list \<Rightarrow> symtab_command list" where
  "symtab_commands [] = []"
| "symtab_commands (LC_SEGMENT_ARCH_DEPENDENT seg # cmds) = symtab_commands cmds"
| "symtab_commands (LC_SYMTAB c # cmds) = c # symtab_commands cmds"
| "symtab_commands (LC_DYSYMTAB c # cmds) = symtab_commands cmds"
| "symtab_commands (LC_OTHER c # cmds) = symtab_commands cmds"

fun dysymtab_commands :: "load_command list \<Rightarrow> dysymtab_command list" where
  "dysymtab_commands [] = []"
| "dysymtab_commands (LC_SEGMENT_ARCH_DEPENDENT seg # cmds) = dysymtab_commands cmds"
| "dysymtab_commands (LC_SYMTAB c # cmds) = dysymtab_commands cmds"
| "dysymtab_commands (LC_DYSYMTAB c # cmds) = c # dysymtab_commands cmds"
| "dysymtab_commands (LC_OTHER c # cmds) = dysymtab_commands cmds"

definition last_option :: "'a list \<Rightarrow> 'a option" where
  "last_option xs = (if xs = [] then None else Some (last xs))"

text \<open>The addresses of the bytes of a section, as loaded.\<close>

definition in_section :: "section_t \<Rightarrow> ptr \<Rightarrow> ptr \<Rightarrow> bool" where
  "in_section sect slide a \<longleftrightarrow> a - (slide + addr sect) < size_s sect"

text \<open>
  The tables of an image, as the walker finds them: those of the last \<^verbatim>\<open>__LINKEDIT\<close>
  segment command, symtab command and dynamic symtab command, when all three are there
  and the dynamic symtab command has indirect symbols.
\<close>

definition linkedit_tables ::
  "process \<Rightarrow> ptr \<Rightarrow> ptr \<Rightarrow> (nlist_t list \<times> char list \<times> 32 word list) option" where
  "linkedit_tables p header slide =
     (case (last_option (linkedit_segments (load_commands p header)),
            last_option (symtab_commands (load_commands p header)),
            last_option (dysymtab_commands (load_commands p header))) of
        (Some le, Some st, Some dy) \<Rightarrow>
          if nindirectsyms dy = 0 then None
          else Some (nlist_at p (slide + vmaddr le - fileoff le + ucast (symoff st)),
                     chars_at p (slide + vmaddr le - fileoff le + ucast (stroff st)),
                     uint32_at p (slide + vmaddr le - fileoff le + ucast (indirectsymoff dy)))
      | _ \<Rightarrow> None)"

text \<open>
  Images the code reads without leaving its tables. A slot is readable when its entry
  of the indirect symbol table exists and is a sentinel or the index of a symbol whose
  name ends inside the string table; a section is readable when it has fewer than
  \<open>2 ^ 32\<close> slots, all readable; an image is readable when the sections the walker hands
  to the rewriter are. A registry is bounded when every batch has fewer than \<open>2 ^ 32\<close>
  entries.
\<close>

definition slot_readable ::
  "section_t \<Rightarrow> nlist_t list \<Rightarrow> char list \<Rightarrow> 32 word list \<Rightarrow> 32 word \<Rightarrow> bool" where
  "slot_readable sect symtab strtab ind i =
     (case read_at ind (unat (reserved1 sect) + unat i) of
        None \<Rightarrow> False
      | Some symtab_index \<Rightarrow>
          symtab_index \<in> {INDIRECT_SYMBOL_ABS, INDIRECT_SYMBOL_LOCAL,
             INDIRECT_SYMBOL_LOCAL OR INDIRECT_SYMBOL_ABS} \<or>
          (case read_at symtab (unat symtab_index) of
             None \<Rightarrow> False
           | Some nl \<Rightarrow> c_string (drop (unat (n_strx nl)) strtab) \<noteq> None))"

definition section_readable ::
  "section_t \<Rightarrow> nlist_t list \<Rightarrow> char list \<Rightarrow> 32 word list \<Rightarrow> bool" where
  "section_readable sect symtab strtab ind \<longleftrightarrow>
     unat (size_s sect div 8) < 2 ^ 32 \<and>
     list_all (\<lambda>k. slot_readable sect symtab strtab ind (of_nat k))
       [0 ..< unat (size_s sect div 8)]"

definition image_readable :: "process \<Rightarrow> ptr \<Rightarrow> ptr \<Rightarrow> bool" where
  "image_readable p header slide =
     (case linkedit_tables p header slide of
        None \<Rightarrow> True
      | Some (symtab, strtab, ind) \<Rightarrow>
          list_all (\<lambda>sect. section_readable sect symtab strtab ind)
            (scanned_sections (load_commands p header)))"

definition registry_bounded :: "rebindings_entry list \<Rightarrow> bool" where
  "registry_bounded registry = list_all (\<lambda>e. length (rebindings e) < 2 ^ 32) registry"

section \<open>A small image\<close>

text \<open>
  An image with a \<^verbatim>\<open>__TEXT\<close> segment, a \<^verbatim>\<open>__DATA_CONST\<close> segment whose \<^verbatim>\<open>__got\<close>
  section has two slots (\<^verbatim>\<open>close\<close> and a local symbol), a \<^verbatim>\<open>__DATA\<close> segment whose
  \<^verbatim>\<open>__la_symbol_ptr\<close> section has two slots (\<^verbatim>\<open>open\<close> and \<^verbatim>\<open>close\<close>) and whose
  \<^verbatim>\<open>__data\<close> section holds no pointers, and the \<^verbatim>\<open>__LINKEDIT\<close> tables.
\<close>

definition ex_strtab :: "char list" where
  "ex_strtab = [nul] @ ''_close'' @ [nul] @ ''_open'' @ [nul]"

definition ex_symtab :: "nlist_t list" where
  "ex_symtab = [\<lparr>n_strx = 1\<rparr>, \<lparr>n_strx = 8\<rparr>]"

definition ex_indirect :: "32 word list" where
  "ex_indirect = [0, 0x80000000, 1, 0]"

definition ex_text :: section_t where
  "ex_text = \<lparr>sectname = ''__text'', segname = ''__TEXT'', addr = 0x1000, size_s = 16,
     flags = 0x80000400, reserved1 = 0\<rparr>"

definition ex_got :: section_t where
  "ex_got = \<lparr>sectname = ''__got'', segname = ''__DATA_CONST'', addr = 0x4000, size_s = 16,
     flags = 0x6, reserved1 = 0\<rparr>"

definition ex_la :: section_t where
  "ex_la = \<lparr>sectname = ''__la_symbol_ptr'', segname = ''__DATA'', addr = 0x8000, size_s = 16,
     flags = 0x7, reserved1 = 2\<rparr>"

definition ex_data :: section_t where
  "ex_data = \<lparr>sectname = ''__data'', segname = ''__DATA'', addr = 0x8010, size_s = 8,
     flags = 0, reserved1 = 0\<rparr>"

definition ex_cmds :: "load_command list" where
  "ex_cmds =
     [LC_SEGMENT_ARCH_DEPENDENT
        \<lparr>seg_segname = ''__TEXT'', vmaddr = 0, fileoff = 0, sections = [ex_text]\<rparr>,
      LC_SEGMENT_ARCH_DEPENDENT
        \<lparr>seg_segname = ''__DATA_CONST'', vmaddr = 0x4000, fileoff = 0x4000,
          sections = [ex_got]\<rparr>,
      LC_SEGMENT_ARCH_DEPENDENT
        \<lparr>seg_segname = ''__DATA'', vmaddr = 0x8000, fileoff = 0x8000,
          sections = [ex_la, ex_data]\<rparr>,
      LC_SEGMENT_ARCH_DEPENDENT
        \<lparr>seg_segname = ''__LINKEDIT'', vmaddr = 0xC000, fileoff = 0xC000, sections = []\<rparr>,
      LC_SYMTAB \<lparr>symoff = 0xC000, stroff = 0xC100\<rparr>,
      LC_DYSYMTAB \<lparr>indirectsymoff = 0xC200, nindirectsyms = 4\<rparr>]"

text \<open>
  A process that has loaded this image at the header address \<open>0x100000\<close> with the
  slide \<open>0x100000\<close>; every cell holds its own address plus one at the start.
\<close>

definition ex_process :: process where
  "ex_process =
     \<lparr>mem = (\<lambda>a. a + 1),
      protection = (\<lambda>a. if a = 0x30000 then Some 3 else if a = 0 then None else Some 1),
      allocated = {},
      rebindings_head = [],
      add_image_funcs = 0,
      dyld_images = [(0x100000, 0x100000)],
      dladdr = (\<lambda>a. a = 0x100000),
      load_commands = (\<lambda>a. if a = 0x100000 then ex_cmds else []),
      nlist_at = (\<lambda>a. if a = 0x10C000 then ex_symtab else []),
      chars_at = (\<lambda>a. if a = 0x10C100 then ex_strtab else []),
      uint32_at = (\<lambda>a. if a = 0x10C200 then ex_indirect else [])\<rparr>"

text \<open>Two batches for \<^verbatim>\<open>open\<close>; the head one is the later registration.\<close>

definition ex_open_A :: rebinding where
  "ex_open_A = \<lparr>name = ''open'', replacement = 0xA00, replaced = 0x20000\<rparr>"

definition ex_open_B :: rebinding where
  "ex_open_B = \<lparr>name = ''open'', replacement = 0xB00, replaced = 0x20008\<rparr>"

definition ex_close_C :: rebinding where
  "ex_close_C = \<lparr>name = ''close'', replacement = 0xC00, replaced = 0\<rparr>"

definition ex_registry :: "rebindings_entry list" where
  "ex_registry =
     [\<lparr>entry_ptr = 0x30000, rebindings_ptr = 0x30100, rebindings = [ex_close_C, ex_open_B]\<rparr>,
      \<lparr>entry_ptr = 0x31000, rebindings_ptr = 0x31100, rebindings = [ex_open_A]\<rparr>]"

text \<open>
  A batch whose rebinding of \<^verbatim>\<open>open\<close> keeps the original in a variable of the image's
  own \<^verbatim>\<open>__data\<close> section, at the address \<open>0x108010\<close>.
\<close>

definition ex_open_D :: rebinding where
  "ex_open_D = \<lparr>name = ''open'', replacement = 0xD00, replaced = 0x108010\<rparr>"

definition ex_registry_D :: "rebindings_entry list" where
  "ex_registry_D =
     [\<lparr>entry_ptr = 0x30000, rebindings_ptr = 0x30100, rebindings = [ex_open_D]\<rparr>]"

text \<open>
  A batch whose rebinding of \<^verbatim>\<open>close\<close> has for \<^verbatim>\<open>replaced\<close> the address \<open>0x104008\<close>
  of the second slot of the \<^verbatim>\<open>__got\<close> section, the slot of the local symbol.
\<close>

definition ex_close_E :: rebinding where
  "ex_close_E = \<lparr>name = ''close'', replacement = 0xE00, replaced = 0x104008\<rparr>"

definition ex_registry_E :: "rebindings_entry list" where
  "ex_registry_E =
     [\<lparr>entry_ptr = 0x30000, rebindings_ptr = 0x30100, rebindings = [ex_close_E]\<rparr>]"

text \<open>The value of a cell after a run, when the run returns.\<close>

definition cell_after :: "process option \<Rightarrow> ptr \<Rightarrow> ptr option" where
  "cell_after r a = map_option (\<lambda>p. mem p a) r"

text \<open>The same process with other load commands at every header address.\<close>

definition ex_with :: "load_command list \<Rightarrow> process" where
  "ex_with cmds = ex_process\<lparr>load_commands := (\<lambda>a. cmds)\<rparr>"

section \<open>Properties of the counting loop\<close>

lemma unat32_less: "unat (i :: 32 word) < 2 ^ 32"
  using unsigned_less [of i] by simp

lemma uint_for_returns_bound_aux:
  "uint_for n body i s = Some y \<Longrightarrow> \<not> fst y \<longrightarrow> n < 2 ^ 32"
proof (erule uint_for.raw_induct [rotated], goal_cases)
  case (1 uf n body i s y)
  show ?case
  proof (cases "unat i < n")
    case True
    with 1 show ?thesis by (auto split: option.splits prod.splits if_splits)
  next
    case False
    with unat32_less [of i] show ?thesis by simp
  qed
qed

lemma uint_for_returns_bound:
  "uint_for n body i s = Some (False, s') \<Longrightarrow> n < 2 ^ 32"
  using uint_for_returns_bound_aux by fastforce

lemma unat_succ32:
  assumes "unat (i :: 32 word) < n" and "n < 2 ^ 32"
  shows "unat (i + 1) = Suc (unat i)"
proof -
  have "unat i + unat (1 :: 32 word) < 2 ^ LENGTH(32)"
    using assms by simp
  then have "unat (i + 1) = unat i + unat (1 :: 32 word)"
    by (simp only: unat_add_lem)
  then show ?thesis by simp
qed

lemma unat_of_nat32: "k < 2 ^ 32 \<Longrightarrow> unat (of_nat k :: 32 word) = k"
  by (simp add: unat_of_nat)

text \<open>Invariant rule for loops that end by their test.\<close>

lemma uint_for_invariant_aux:
  assumes step: "\<And>k t t'. k < n \<Longrightarrow> I k t \<Longrightarrow> body (of_nat k) t = Some (False, t') \<Longrightarrow> I (Suc k) t'"
  shows "uint_for n' body' i s = Some y \<Longrightarrow>
    n' = n \<longrightarrow> body' = body \<longrightarrow> n < 2 ^ 32 \<longrightarrow> \<not> fst y \<longrightarrow> unat i \<le> n \<longrightarrow> I (unat i) s \<longrightarrow> I n (snd y)"
proof (erule uint_for.raw_induct [rotated], goal_cases)
  case (1 uf n' body' i s y)
  show ?case
  proof (intro impI)
    assume eq: "n' = n" "body' = body" and n: "n < 2 ^ 32" and y: "\<not> fst y"
      and le: "unat i \<le> n" and inv: "I (unat i) s"
    show "I n (snd y)"
    proof (cases "unat i < n")
      case False
      with le have "unat i = n" by simp
      moreover from False 1(2) eq have "y = (False, s)" by simp
      ultimately show ?thesis using inv by simp
    next
      case True
      from True 1(2) eq y obtain t where b: "body i s = Some (False, t)"
        and r: "uf n body (i + 1) t = Some y"
        by (auto split: option.splits prod.splits if_splits)
      have su: "unat (i + 1) = Suc (unat i)" using True n by (rule unat_succ32)
      have "I (Suc (unat i)) t"
        using step [of "unat i" s t] True inv b by simp
      with 1(1) [OF r] n y True su show ?thesis by simp
    qed
  qed
qed


lemma uint_for_never_left_aux:
  assumes nl: "\<And>k t b t'. body k t = Some (b, t') \<Longrightarrow> \<not> b"
  shows "uint_for n' body' i s = Some y \<Longrightarrow> body' = body \<longrightarrow> \<not> fst y"
proof (erule uint_for.raw_induct [rotated], goal_cases)
  case (1 uf n' body' i s y)
  show ?case
  proof
    assume eq: "body' = body"
    show "\<not> fst y"
    proof (cases "unat i < n'")
      case False
      with 1(2) show ?thesis by auto
    next
      case True
      from True 1(2) eq nl obtain t where "uf n' body (i + 1) t = Some y"
        by (auto split: option.splits prod.splits if_splits)
      from 1(1) [OF this] show ?thesis by simp
    qed
  qed
qed

lemma uint_for_invariant:
  assumes run: "uint_for n body 0 s = Some (left, s')"
    and init: "I 0 s"
    and step: "\<And>k t t'. k < n \<Longrightarrow> I k t \<Longrightarrow> body (of_nat k) t = Some (False, t') \<Longrightarrow> I (Suc k) t'"
    and nl: "\<And>k t b t'. body k t = Some (b, t') \<Longrightarrow> \<not> b"
  shows "\<not> left \<and> n < 2 ^ 32 \<and> I n s'"
proof -
  from uint_for_never_left_aux [of body, OF nl run] have l: "\<not> left" by simp
  with run have "uint_for n body 0 s = Some (False, s')" by simp
  then have n: "n < 2 ^ 32" by (rule uint_for_returns_bound)
  from uint_for_invariant_aux [of n I body, OF step run] l n init
  have "I n s'" by simp
  with l n show ?thesis by simp
qed

text \<open>A loop whose body leaves the state as it is: a search.\<close>

lemma uint_for_all_continue_aux:
  assumes c: "\<And>k. k < n \<Longrightarrow> k < 2 ^ 32 \<Longrightarrow> body (of_nat k) s = Some (False, s)"
  shows "uint_for n' body' i s0 = Some y \<Longrightarrow>
    n' = n \<longrightarrow> body' = body \<longrightarrow> s0 = s \<longrightarrow> y = (False, s)"
proof (erule uint_for.raw_induct [rotated], goal_cases)
  case (1 uf n' body' i s0 y)
  show ?case
  proof (intro impI)
    assume eq: "n' = n" "body' = body" "s0 = s"
    show "y = (False, s)"
    proof (cases "unat i < n")
      case False
      with 1(2) eq show ?thesis by simp
    next
      case True
      from c [of "unat i"] True unat32_less [of i] have "body i s = Some (False, s)" by simp
      with True 1(2) eq have "uf n body (i + 1) s = Some y" by simp
      from 1(1) [OF this] show ?thesis by simp
    qed
  qed
qed

lemma uint_for_skip:
  assumes c: "\<And>k'. j \<le> k' \<Longrightarrow> k' < k \<Longrightarrow> body (of_nat k') s = Some (False, s)"
    and k: "k < n" "k < 2 ^ 32" and j: "j \<le> k"
  shows "uint_for n body (of_nat j) s = uint_for n body (of_nat k) s"
  using c j
proof (induction "k - j" arbitrary: j)
  case 0
  then show ?case by simp
next
  case (Suc d)
  then have jk: "j < k" by simp
  with k have u: "unat (of_nat j :: 32 word) = j"
    by (simp add: unat_of_nat32)
  from Suc.prems(1) [of j] jk have b: "body (of_nat j) s = Some (False, s)" by simp
  have "uint_for n body (of_nat j) s = uint_for n body (of_nat j + 1) s"
    using u jk k b by (subst uint_for.simps) simp
  also have "(of_nat j + 1 :: 32 word) = of_nat (Suc j)" by simp
  also have "uint_for n body (of_nat (Suc j)) s = uint_for n body (of_nat k) s"
    using Suc.hyps(1) [of "Suc j"] Suc.hyps(2) Suc.prems jk by simp
  finally show ?case .
qed

lemma uint_for_search:
  assumes run: "uint_for n body 0 s = Some y"
    and unchanged: "\<And>k t. body k s = Some (False, t) \<Longrightarrow> t = s"
  shows "(\<exists>k<n. k < 2 ^ 32 \<and> fst y \<and> body (of_nat k) s = Some y \<and>
            (\<forall>k'<k. body (of_nat k') s = Some (False, s))) \<or>
         (y = (False, s) \<and> n < 2 ^ 32 \<and> (\<forall>k<n. body (of_nat k) s = Some (False, s)))"
proof (cases "\<forall>k. k < n \<and> k < 2 ^ 32 \<longrightarrow> body (of_nat k) s = Some (False, s)")
  case True
  then have c: "\<And>k. k < n \<Longrightarrow> k < 2 ^ 32 \<Longrightarrow> body (of_nat k) s = Some (False, s)" by simp
  from uint_for_all_continue_aux [of n body s, OF c run] have y: "y = (False, s)" by simp
  with run have "uint_for n body 0 s = Some (False, s)" by simp
  then have "n < 2 ^ 32" by (rule uint_for_returns_bound)
  with True y show ?thesis by simp
next
  case False
  define k where "k = (LEAST k. k < n \<and> k < 2 ^ 32 \<and> body (of_nat k) s \<noteq> Some (False, s))"
  from False have ex: "\<exists>k. k < n \<and> k < 2 ^ 32 \<and> body (of_nat k) s \<noteq> Some (False, s)" by simp
  from LeastI_ex [OF ex] have k: "k < n" "k < 2 ^ 32" "body (of_nat k) s \<noteq> Some (False, s)"
    unfolding k_def by simp_all
  have before: "body (of_nat k') s = Some (False, s)" if "k' < k" for k'
  proof (rule ccontr)
    assume "body (of_nat k') s \<noteq> Some (False, s)"
    with that k have "k' < n \<and> k' < 2 ^ 32 \<and> body (of_nat k') s \<noteq> Some (False, s)" by simp
    from Least_le [of "\<lambda>k. k < n \<and> k < 2 ^ 32 \<and> body (of_nat k) s \<noteq> Some (False, s)", OF this]
    have "k \<le> k'" unfolding k_def .
    with that show False by simp
  qed
  have "uint_for n body (of_nat 0) s = uint_for n body (of_nat k) s"
    by (rule uint_for_skip) (use before k in simp_all)
  with run have r: "uint_for n body (of_nat k) s = Some y" by simp
  have u: "unat (of_nat k :: 32 word) = k" using k by (simp add: unat_of_nat32)
  from r u k unchanged [of "of_nat k"] have "fst y \<and> body (of_nat k) s = Some y"
    by (subst (asm) uint_for.simps) (auto split: option.splits prod.splits if_splits)
  with k before show ?thesis by blast
qed

section \<open>Names and matching\<close>

lemma c_string_Nil [simp]: "c_string [] = None"
  by (simp add: c_string_def)

lemma c_string_Cons:
  "c_string (a # as) = (if a = nul then Some [] else map_option ((#) a) (c_string as))"
  by (simp add: c_string_def)

lemma strcmp_eq_0:
  "strcmp A B = Some 0 \<longleftrightarrow> c_string A = c_string B \<and> c_string A \<noteq> None"
proof (induction A B rule: strcmp.induct)
  case (1 a as b bs)
  show ?case
  proof (cases "a = b")
    case True
    with 1 show ?thesis by (cases "c_string as"; cases "c_string bs"; simp add: c_string_Cons)
  next
    case False
    then show ?thesis
      by (cases "c_string as"; cases "c_string bs"; auto simp add: c_string_Cons)
  qed
next
  case (2 bs)
  then show ?case by simp
next
  case (3 v va)
  then show ?case by auto
qed

lemma c_string_terminated [simp]: "c_string (N @ [nul]) \<noteq> None"
  by (simp add: c_string_def)

lemma name_test_matches:
  assumes "symbol_name_longer_than_1 S = Some l"
  shows "(name_test l S r = Some True) = name_matches S (name r)"
proof (cases S)
  case Nil
  with assms show ?thesis by (simp add: symbol_name_longer_than_1_def read_at_def)
next
  case (Cons c0 S1)
  show ?thesis
  proof (cases S1)
    case Nil
    with Cons assms show ?thesis
      by (auto simp add: symbol_name_longer_than_1_def read_at_def name_test_def name_matches_def
          split: if_splits)
  next
    case (Cons c1 rest)
    with \<open>S = c0 # S1\<close> assms show ?thesis
      using strcmp_eq_0 [of "c1 # rest" "name r @ [nul]"]
      by (auto simp add: symbol_name_longer_than_1_def read_at_def name_test_def name_matches_def
          split: if_splits option.splits)
  qed
qed

lemma rebindings_for_result:
  assumes run: "rebindings_for l S slot rs p = Some (found, p')"
  shows "case find (\<lambda>r. name_test l S r = Some True) rs of
           None \<Rightarrow> \<not> found \<and> p' = p
         | Some r \<Rightarrow> found \<and> p' = rewrite_binding r slot p"
proof -
  let ?body = "rebindings_body l S slot rs"
  let ?P = "\<lambda>r. name_test l S r = Some True"
  have unchanged: "\<And>k t. ?body k p = Some (False, t) \<Longrightarrow> t = p"
    by (auto simp add: rebindings_body_def split: option.splits if_splits)
  from run have u: "uint_for (length rs) ?body 0 p = Some (found, p')"
    by (simp add: rebindings_for_def)
  have "(\<exists>k<length rs. k < 2 ^ 32 \<and> fst (found, p') \<and> ?body (of_nat k) p = Some (found, p') \<and>
            (\<forall>k'<k. ?body (of_nat k') p = Some (False, p))) \<or>
         ((found, p') = (False, p) \<and> length rs < 2 ^ 32 \<and>
            (\<forall>k<length rs. ?body (of_nat k) p = Some (False, p)))"
    using u unchanged by (rule uint_for_search)
  then consider (hit) k where "k < length rs" "k < 2 ^ 32" "found" "?body (of_nat k) p = Some (found, p')"
      "\<forall>k'<k. ?body (of_nat k') p = Some (False, p)"
    | (miss) "(found, p') = (False, p)" "length rs < 2 ^ 32"
      "\<forall>k<length rs. ?body (of_nat k) p = Some (False, p)"
    by auto
  then show ?thesis
  proof cases
    case hit
    from hit(2,3,4) have t: "?P (rs ! k)" and p': "p' = rewrite_binding (rs ! k) slot p"
      by (auto simp add: rebindings_body_def unat_of_nat32 split: option.splits if_splits)
    have "\<not> ?P (rs ! k')" if "k' < k" for k'
    proof -
      from that hit(2) have "k' < 2 ^ 32" by simp
      with hit(5) that show ?thesis
        by (auto simp add: rebindings_body_def unat_of_nat32 split: option.splits if_splits)
    qed
    with t hit(1) have "find ?P rs = Some (rs ! k)"
      by (auto simp add: find_Some_iff)
    with hit(3) p' show ?thesis by simp
  next
    case miss
    have "\<not> ?P (rs ! k)" if "k < length rs" for k
    proof -
      from that miss(2) have "k < 2 ^ 32" by simp
      with miss(3) that show ?thesis
        by (auto simp add: rebindings_body_def unat_of_nat32 split: option.splits if_splits)
    qed
    then have "find ?P rs = None"
      by (auto simp add: find_None_iff in_set_conv_nth)
    with miss(1) show ?thesis by simp
  qed
qed

lemma find_append_case:
  "find P (xs @ ys) = (case find P xs of None \<Rightarrow> find P ys | Some x \<Rightarrow> Some x)"
  by (induction xs) simp_all

lemma rebindings_while_result:
  assumes "rebindings_while l S slot registry p = Some p'"
  shows "case find (\<lambda>r. name_test l S r = Some True) (concat (map rebindings registry)) of
           None \<Rightarrow> p' = p
         | Some r \<Rightarrow> p' = rewrite_binding r slot p"
  using assms
proof (induction registry)
  case Nil
  then show ?case by simp
next
  case (Cons cur rest)
  from Cons.prems obtain found p1 where
    rf: "rebindings_for l S slot (rebindings cur) p = Some (found, p1)"
    and k: "if found then p' = p1 else rebindings_while l S slot rest p1 = Some p'"
    by (auto split: option.splits prod.splits if_splits)
  from rebindings_for_result [OF rf] k Cons.IH show ?case
    by (auto simp add: find_append_case split: option.splits if_splits)
qed

lemma symbol_loop_result:
  assumes "symbol_loop registry sect slide symtab strtab ind i p = Some p'"
  shows "case slot_symbol sect symtab strtab ind i of
           None \<Rightarrow> p' = p
         | Some S \<Rightarrow>
            (case first_match S registry of
               None \<Rightarrow> p' = p
             | Some r \<Rightarrow> p' = rewrite_binding r (binding_ptr sect slide i) p)"
proof (cases "slot_symbol sect symtab strtab ind i")
  case None
  with assms show ?thesis
    by (auto simp add: symbol_loop_def slot_symbol_def split: option.splits if_splits)
next
  case (Some S)
  with assms obtain l where l: "symbol_name_longer_than_1 S = Some l"
    and w: "rebindings_while l S (binding_ptr sect slide i) registry p = Some p'"
    by (auto simp add: symbol_loop_def slot_symbol_def Let_def split: option.splits if_splits)
  have "(\<lambda>r. name_test l S r = Some True) = (\<lambda>r. name_matches S (name r))"
    using name_test_matches [OF l] by auto
  with rebindings_while_result [OF w] Some show ?thesis
    by (simp add: first_match_def)
qed

section \<open>Effects of one iteration and of a section\<close>

lemma rewrite_binding_slot: "mem (rewrite_binding r slot p) slot = replacement r"
  by (simp add: rewrite_binding_def Let_def)

lemma rewrite_binding_mem_other:
  "a \<noteq> slot \<Longrightarrow> replaced r = 0 \<or> a \<noteq> replaced r \<Longrightarrow> mem (rewrite_binding r slot p) a = mem p a"
  by (auto simp add: rewrite_binding_def Let_def)

lemma rewrite_binding_only_mem:
  "\<exists>m. rewrite_binding r slot p = p\<lparr>mem := m\<rparr>"
  by (auto simp add: rewrite_binding_def Let_def)


lemma first_match_in_registry:
  "first_match S registry = Some r \<Longrightarrow> r \<in> set (concat (map rebindings registry))"
  unfolding first_match_def find_Some_iff by (metis nth_mem)

lemma symbol_loop_cases:
  assumes "symbol_loop registry sect slide symtab strtab ind i p = Some p'"
  shows "p' = p \<or> (\<exists>r \<in> set (concat (map rebindings registry)).
           p' = rewrite_binding r (binding_ptr sect slide i) p)"
  using symbol_loop_result [OF assms] first_match_in_registry
  by (fastforce split: option.splits)

lemma process_mem_same: "p = p\<lparr>mem := mem p\<rparr>"
  by simp

lemma symbol_loop_only_mem:
  assumes "symbol_loop registry sect slide symtab strtab ind i p = Some p'"
  shows "\<exists>m. p' = p\<lparr>mem := m\<rparr>"
  using symbol_loop_cases [OF assms] rewrite_binding_only_mem [of _ "binding_ptr sect slide i" p]
    process_mem_same [of p]
  by blast

lemma symbol_loop_mem_other:
  assumes "symbol_loop registry sect slide symtab strtab ind i p = Some p'"
    and "a \<noteq> binding_ptr sect slide i" and "a \<notin> replaced_targets registry"
  shows "mem p' a = mem p a"
proof -
  from symbol_loop_cases [OF assms(1)] consider "p' = p"
    | r where "r \<in> set (concat (map rebindings registry))"
        "p' = rewrite_binding r (binding_ptr sect slide i) p"
    by auto
  then show ?thesis
  proof cases
    case 1
    then show ?thesis by simp
  next
    case 2
    from 2(1) assms(3) have "replaced r = 0 \<or> a \<noteq> replaced r"
      by (auto simp add: replaced_targets_def)
    with 2(2) assms(2) show ?thesis by (simp add: rewrite_binding_mem_other)
  qed
qed

lemma unat_8_ucast: "unat ((8 :: 64 word) * ucast k) = 8 * unat k" for k :: "32 word"
proof -
  have "unat k < 2 ^ 64" using unat32_less [of k] by simp
  then have e: "unat (ucast k :: 64 word) = unat k"
    by (simp add: unsigned_ucast_eq take_bit_nat_eq_self)
  moreover have "unat k < 2 ^ 32" by (rule unat32_less)
  ultimately have "unat (8 :: 64 word) * unat (ucast k :: 64 word) < 2 ^ LENGTH(64)" by simp
  then have "unat ((8 :: 64 word) * ucast k) = unat (8 :: 64 word) * unat (ucast k :: 64 word)"
    by (simp only: unat_mult_lem)
  with e show ?thesis by simp
qed

lemma binding_ptr_inj:
  "binding_ptr sect slide i = binding_ptr sect slide j \<longleftrightarrow> i = j"
proof
  assume "binding_ptr sect slide i = binding_ptr sect slide j"
  then have "(8 :: 64 word) * ucast i = 8 * ucast j" by (simp add: binding_ptr_def)
  then have "unat ((8 :: 64 word) * ucast i) = unat ((8 :: 64 word) * ucast j)" by simp
  then have "unat i = unat j" by (simp add: unat_8_ucast)
  then show "i = j" by (rule word_unat_eq_iff [THEN iffD2])
qed simp

lemma binding_ptr_in_section:
  assumes "unat i < unat (size_s sect div 8)"
  shows "in_section sect slide (binding_ptr sect slide i)"
proof -
  have "unat (size_s sect div 8) = unat (size_s sect) div 8" by (simp add: unat_div)
  with assms have "8 * unat i < unat (size_s sect)" by simp
  then have "unat ((8 :: 64 word) * ucast i) < unat (size_s sect)" by (simp add: unat_8_ucast)
  then have "(8 :: 64 word) * ucast i < size_s sect" by (simp add: word_less_nat_alt)
  then show ?thesis by (simp add: in_section_def binding_ptr_def)
qed

lemma section_for_invariant:
  assumes run: "section_for registry sect slide symtab strtab ind p = Some (left, p')"
    and init: "I 0 p"
    and step: "\<And>k t t'. k < unat (size_s sect div 8) \<Longrightarrow> k < 2 ^ 32 \<Longrightarrow> I k t \<Longrightarrow>
       symbol_loop registry sect slide symtab strtab ind (of_nat k) t = Some t' \<Longrightarrow> I (Suc k) t'"
  shows "unat (size_s sect div 8) < 2 ^ 32 \<and> I (unat (size_s sect div 8)) p'"
proof -
  let ?n = "unat (size_s sect div 8)"
  let ?body = "\<lambda>i p. map_option (Pair False) (symbol_loop registry sect slide symtab strtab ind i p)"
  let ?J = "\<lambda>k t. k < 2 ^ 32 \<longrightarrow> I k t"
  from run have u: "uint_for ?n ?body 0 p = Some (left, p')" by (simp add: section_for_def)
  have "\<not> left \<and> ?n < 2 ^ 32 \<and> True"
  proof (rule uint_for_invariant [where body = ?body and I = "\<lambda>k t. True"])
    show "uint_for ?n ?body 0 p = Some (left, p')" by (rule u)
    show "\<not> b" if "?body k t = Some (b, t')" for k t b t' using that by auto
  qed simp_all
  then have n: "?n < 2 ^ 32" by simp
  have "\<not> left \<and> ?n < 2 ^ 32 \<and> I ?n p'"
  proof (rule uint_for_invariant [where body = ?body and I = I])
    show "uint_for ?n ?body 0 p = Some (left, p')" by (rule u)
    show "I 0 p" by (rule init)
    show "\<not> b" if "?body k t = Some (b, t')" for k t b t' using that by auto
    show "I (Suc k) t'" if "k < ?n" "I k t" "?body (of_nat k) t = Some (False, t')" for k t t'
      using that n step [of k t t'] by auto
  qed
  then show ?thesis by simp
qed

lemma section_for_only_mem:
  assumes "section_for registry sect slide symtab strtab ind p = Some (left, p')"
  shows "\<exists>m. p' = p\<lparr>mem := m\<rparr>"
proof -
  have "unat (size_s sect div 8) < 2 ^ 32 \<and> (\<exists>m. p' = p\<lparr>mem := m\<rparr>)"
  proof (rule section_for_invariant [where I = "\<lambda>k t. \<exists>m. t = p\<lparr>mem := m\<rparr>", OF assms])
    show "\<exists>m. p = p\<lparr>mem := m\<rparr>" using process_mem_same [of p] by blast
    show "\<exists>m. t' = p\<lparr>mem := m\<rparr>"
      if "\<exists>m. t = p\<lparr>mem := m\<rparr>"
        "symbol_loop registry sect slide symtab strtab ind (of_nat k) t = Some t'" for k t t'
    proof -
      from symbol_loop_only_mem [OF that(2)] obtain m' where "t' = t\<lparr>mem := m'\<rparr>" by blast
      moreover from that(1) obtain m where "t = p\<lparr>mem := m\<rparr>" by blast
      ultimately have "t' = p\<lparr>mem := m'\<rparr>" by simp
      then show ?thesis by blast
    qed
  qed
  then show ?thesis by simp
qed

lemma section_for_mem_other:
  assumes run: "section_for registry sect slide symtab strtab ind p = Some (left, p')"
    and a: "\<And>i. unat i < unat (size_s sect div 8) \<Longrightarrow> a \<noteq> binding_ptr sect slide i"
    and r: "a \<notin> replaced_targets registry"
  shows "mem p' a = mem p a"
proof -
  have "unat (size_s sect div 8) < 2 ^ 32 \<and> mem p' a = mem p a"
  proof (rule section_for_invariant [where I = "\<lambda>k t. mem t a = mem p a", OF run])
    show "mem p a = mem p a" by simp
    show "mem t' a = mem p a"
      if "k < unat (size_s sect div 8)" "k < 2 ^ 32" "mem t a = mem p a"
        "symbol_loop registry sect slide symtab strtab ind (of_nat k) t = Some t'" for k t t'
    proof -
      from that(1,2) have "unat (of_nat k :: 32 word) < unat (size_s sect div 8)"
        by (simp add: unat_of_nat32)
      then have "a \<noteq> binding_ptr sect slide (of_nat k)" by (rule a)
      from symbol_loop_mem_other [OF that(4) this r] that(3) show ?thesis by simp
    qed
  qed
  then show ?thesis by simp
qed

lemma section_for_empty_registry:
  assumes "section_for [] sect slide symtab strtab ind p = Some (left, p')"
  shows "p' = p"
proof -
  have "unat (size_s sect div 8) < 2 ^ 32 \<and> p' = p"
  proof (rule section_for_invariant [where I = "\<lambda>k t. t = p", OF assms])
    show "t' = p"
      if "t = p" "symbol_loop [] sect slide symtab strtab ind (of_nat k) t = Some t'" for k t t'
      using symbol_loop_cases [OF that(2)] that(1) by simp
  qed simp
  then show ?thesis by simp
qed

text \<open>What a call of the section rewriter does, step by step.\<close>

lemma perform_rebinding_with_section_result:
  assumes "perform_rebinding_with_section registry sect slide symtab strtab ind p = Some p'"
  shows "\<exists>left p2.
    section_for registry sect slide symtab strtab ind
      (if segname sect = SEG_DATA_CONST
       then mprotect (slide + addr sect) (size_s sect) (PROT_READ OR PROT_WRITE) p else p)
      = Some (left, p2) \<and>
    p' = (if segname sect = SEG_DATA_CONST
          then mprotect (slide + addr sect) (size_s sect)
                 (prot_of_vm_prot (get_protection p (head_ptr registry))) p2
          else p2)"
proof (cases "segname sect = SEG_DATA_CONST")
  case True
  let ?r = "section_for registry sect slide symtab strtab ind
          (mprotect (slide + addr sect) (size_s sect) (PROT_READ OR PROT_WRITE) p)"
  from assms True obtain y where y: "?r = Some y"
    unfolding perform_rebinding_with_section_def Let_def by (cases ?r) simp_all
  obtain left p2 where lp: "y = (left, p2)" by (cases y)
  from assms True y lp have "p' = mprotect (slide + addr sect) (size_s sect)
      (prot_of_vm_prot (get_protection p (head_ptr registry))) p2"
    by (auto simp add: perform_rebinding_with_section_def Let_def prot_of_vm_prot_def or.assoc)
  with True y lp show ?thesis by auto
next
  case False
  let ?r = "section_for registry sect slide symtab strtab ind p"
  from assms False obtain y where y: "?r = Some y"
    unfolding perform_rebinding_with_section_def Let_def by (cases ?r) simp_all
  obtain left p2 where lp: "y = (left, p2)" by (cases y)
  from assms False y lp have "p' = p2"
    unfolding perform_rebinding_with_section_def Let_def by auto
  with False y lp show ?thesis by auto
qed

lemma mprotect_mem: "mem (mprotect a len prot p) = mem p"
  by (simp add: mprotect_def)

lemma perform_only_mem_protection:
  assumes "perform_rebinding_with_section registry sect slide symtab strtab ind p = Some p'"
  shows "\<exists>m pr. p' = p\<lparr>mem := m, protection := pr\<rparr>"
proof -
  from perform_rebinding_with_section_result [OF assms] obtain left p2 where
    s: "section_for registry sect slide symtab strtab ind
      (if segname sect = SEG_DATA_CONST
       then mprotect (slide + addr sect) (size_s sect) (PROT_READ OR PROT_WRITE) p else p)
      = Some (left, p2)"
    and p': "p' = (if segname sect = SEG_DATA_CONST
          then mprotect (slide + addr sect) (size_s sect)
                 (prot_of_vm_prot (get_protection p (head_ptr registry))) p2
          else p2)"
    by blast
  from section_for_only_mem [OF s] obtain m where
    p2: "p2 = (if segname sect = SEG_DATA_CONST
       then mprotect (slide + addr sect) (size_s sect) (PROT_READ OR PROT_WRITE) p else p)\<lparr>mem := m\<rparr>"
    by blast
  show ?thesis
  proof (cases "segname sect = SEG_DATA_CONST")
    case True
    with p2 p' have "p' = p\<lparr>mem := m, protection := protection p'\<rparr>"
      by (simp add: mprotect_def)
    then show ?thesis by blast
  next
    case False
    with p2 p' have "p' = p\<lparr>mem := m, protection := protection p\<rparr>" by simp
    then show ?thesis by blast
  qed
qed

lemma perform_mem_other:
  assumes run: "perform_rebinding_with_section registry sect slide symtab strtab ind p = Some p'"
    and a: "\<And>i. unat i < unat (size_s sect div 8) \<Longrightarrow> a \<noteq> binding_ptr sect slide i"
    and r: "a \<notin> replaced_targets registry"
  shows "mem p' a = mem p a"
proof -
  from perform_rebinding_with_section_result [OF run] obtain left p2 where
    s: "section_for registry sect slide symtab strtab ind
      (if segname sect = SEG_DATA_CONST
       then mprotect (slide + addr sect) (size_s sect) (PROT_READ OR PROT_WRITE) p else p)
      = Some (left, p2)"
    and p': "p' = (if segname sect = SEG_DATA_CONST
          then mprotect (slide + addr sect) (size_s sect)
                 (prot_of_vm_prot (get_protection p (head_ptr registry))) p2
          else p2)"
    by blast
  from section_for_mem_other [OF s a r] p' show ?thesis
    by (simp add: mprotect_mem split: if_splits)
qed

lemma perform_empty_registry_mem:
  assumes "perform_rebinding_with_section [] sect slide symtab strtab ind p = Some p'"
  shows "mem p' = mem p"
proof -
  from perform_rebinding_with_section_result [OF assms] obtain left p2 where
    s: "section_for [] sect slide symtab strtab ind
      (if segname sect = SEG_DATA_CONST
       then mprotect (slide + addr sect) (size_s sect) (PROT_READ OR PROT_WRITE) p else p)
      = Some (left, p2)"
    and p': "p' = (if segname sect = SEG_DATA_CONST
          then mprotect (slide + addr sect) (size_s sect)
                 (prot_of_vm_prot (get_protection p (head_ptr [])) ) p2
          else p2)"
    by blast
  from section_for_empty_registry [OF s] p' show ?thesis
    by (simp add: mprotect_mem split: if_splits)
qed

text \<open>The walker changes the cells and the protections only.\<close>

lemma sections_for_only_mem_protection:
  "sections_for registry sects slide symtab strtab ind p = Some p' \<Longrightarrow>
   \<exists>m pr. p' = p\<lparr>mem := m, protection := pr\<rparr>"
proof (induction sects arbitrary: p)
  case Nil
  then have "p' = p\<lparr>mem := mem p, protection := protection p\<rparr>" by simp
  then show ?case by blast
next
  case (Cons sect sects)
  let ?lazy = "if flags sect AND SECTION_TYPE = S_LAZY_SYMBOL_POINTERS
      then perform_rebinding_with_section registry sect slide symtab strtab ind p else Some p"
  from Cons.prems obtain p1 where p1: "?lazy = Some p1" by (cases ?lazy) simp_all
  let ?nonlazy = "if flags sect AND SECTION_TYPE = S_NON_LAZY_SYMBOL_POINTERS
      then perform_rebinding_with_section registry sect slide symtab strtab ind p1 else Some p1"
  from Cons.prems p1 obtain p2 where p2: "?nonlazy = Some p2" by (cases ?nonlazy) simp_all
  from Cons.prems p1 p2 have r: "sections_for registry sects slide symtab strtab ind p2 = Some p'"
    by simp
  have "\<exists>m pr. p1 = p\<lparr>mem := m, protection := pr\<rparr>"
  proof (cases "flags sect AND SECTION_TYPE = S_LAZY_SYMBOL_POINTERS")
    case True
    with p1 show ?thesis using perform_only_mem_protection by simp
  next
    case False
    with p1 have "p1 = p\<lparr>mem := mem p, protection := protection p\<rparr>" by simp
    then show ?thesis by blast
  qed
  then obtain m1 pr1 where e1: "p1 = p\<lparr>mem := m1, protection := pr1\<rparr>" by blast
  have "\<exists>m pr. p2 = p1\<lparr>mem := m, protection := pr\<rparr>"
  proof (cases "flags sect AND SECTION_TYPE = S_NON_LAZY_SYMBOL_POINTERS")
    case True
    with p2 show ?thesis using perform_only_mem_protection by simp
  next
    case False
    with p2 have "p2 = p1\<lparr>mem := mem p1, protection := protection p1\<rparr>" by simp
    then show ?thesis by blast
  qed
  then obtain m2 pr2 where e2: "p2 = p1\<lparr>mem := m2, protection := pr2\<rparr>" by blast
  from Cons.IH [OF r] obtain m3 pr3 where "p' = p2\<lparr>mem := m3, protection := pr3\<rparr>" by blast
  with e1 e2 have "p' = p\<lparr>mem := m3, protection := pr3\<rparr>" by simp
  then show ?case by blast
qed

lemma sections_for_empty_registry_mem:
  "sections_for [] sects slide symtab strtab ind p = Some p' \<Longrightarrow> mem p' = mem p"
proof (induction sects arbitrary: p)
  case Nil
  then show ?case by simp
next
  case (Cons sect sects)
  let ?lazy = "if flags sect AND SECTION_TYPE = S_LAZY_SYMBOL_POINTERS
      then perform_rebinding_with_section [] sect slide symtab strtab ind p else Some p"
  from Cons.prems obtain p1 where p1: "?lazy = Some p1" by (cases ?lazy) simp_all
  let ?nonlazy = "if flags sect AND SECTION_TYPE = S_NON_LAZY_SYMBOL_POINTERS
      then perform_rebinding_with_section [] sect slide symtab strtab ind p1 else Some p1"
  from Cons.prems p1 obtain p2 where p2: "?nonlazy = Some p2" by (cases ?nonlazy) simp_all
  from Cons.prems p1 p2 have r: "sections_for [] sects slide symtab strtab ind p2 = Some p'"
    by simp
  from p1 have "mem p1 = mem p" using perform_empty_registry_mem by (auto split: if_splits)
  moreover from p2 have "mem p2 = mem p1" using perform_empty_registry_mem by (auto split: if_splits)
  moreover from Cons.IH [OF r] have "mem p' = mem p2" .
  ultimately show ?case by simp
qed

lemma commands_for_only_mem_protection:
  "commands_for registry cmds slide symtab strtab ind p = Some p' \<Longrightarrow>
   \<exists>m pr. p' = p\<lparr>mem := m, protection := pr\<rparr>"
proof (induction cmds arbitrary: p)
  case Nil
  then have "p' = p\<lparr>mem := mem p, protection := protection p\<rparr>" by simp
  then show ?case by blast
next
  case (Cons c cmds)
  show ?case
  proof (cases c)
    case (LC_SEGMENT_ARCH_DEPENDENT seg)
    show ?thesis
    proof (cases "seg_segname seg \<noteq> SEG_DATA \<and> seg_segname seg \<noteq> SEG_DATA_CONST")
      case True
      with Cons LC_SEGMENT_ARCH_DEPENDENT show ?thesis by simp
    next
      case False
      with Cons.prems LC_SEGMENT_ARCH_DEPENDENT obtain p1 where
        p1: "sections_for registry (sections seg) slide symtab strtab ind p = Some p1"
        and r: "commands_for registry cmds slide symtab strtab ind p1 = Some p'"
        by (auto split: option.splits)
      from sections_for_only_mem_protection [OF p1] obtain m1 pr1 where
        "p1 = p\<lparr>mem := m1, protection := pr1\<rparr>" by blast
      moreover from Cons.IH [OF r] obtain m2 pr2 where
        "p' = p1\<lparr>mem := m2, protection := pr2\<rparr>" by blast
      ultimately have "p' = p\<lparr>mem := m2, protection := pr2\<rparr>" by simp
      then show ?thesis by blast
    qed
  qed (use Cons in simp_all)
qed

lemma commands_for_empty_registry_mem:
  "commands_for [] cmds slide symtab strtab ind p = Some p' \<Longrightarrow> mem p' = mem p"
proof (induction cmds arbitrary: p)
  case Nil
  then show ?case by simp
next
  case (Cons c cmds)
  show ?case
  proof (cases c)
    case (LC_SEGMENT_ARCH_DEPENDENT seg)
    show ?thesis
    proof (cases "seg_segname seg \<noteq> SEG_DATA \<and> seg_segname seg \<noteq> SEG_DATA_CONST")
      case True
      with Cons LC_SEGMENT_ARCH_DEPENDENT show ?thesis by simp
    next
      case False
      with Cons.prems LC_SEGMENT_ARCH_DEPENDENT obtain p1 where
        p1: "sections_for [] (sections seg) slide symtab strtab ind p = Some p1"
        and r: "commands_for [] cmds slide symtab strtab ind p1 = Some p'"
        by (auto split: option.splits)
      from sections_for_empty_registry_mem [OF p1] Cons.IH [OF r] show ?thesis by simp
    qed
  qed (use Cons in simp_all)
qed

lemma rebind_symbols_for_image_cases:
  "rebind_symbols_for_image registry header slide p = Some p \<or>
   (\<exists>symtab strtab ind. rebind_symbols_for_image registry header slide p =
      commands_for registry (load_commands p header) slide symtab strtab ind p)"
  by (auto simp add: rebind_symbols_for_image_def Let_def split: option.splits prod.splits)

lemma rebind_symbols_for_image_only_mem_protection:
  assumes "rebind_symbols_for_image registry header slide p = Some p'"
  shows "\<exists>m pr. p' = p\<lparr>mem := m, protection := pr\<rparr>"
proof -
  from rebind_symbols_for_image_cases [of registry header slide p] assms
  consider "p' = p"
    | symtab strtab ind where
      "commands_for registry (load_commands p header) slide symtab strtab ind p = Some p'"
    by auto
  then show ?thesis
  proof cases
    case 1
    then have "p' = p\<lparr>mem := mem p, protection := protection p\<rparr>" by simp
    then show ?thesis by blast
  next
    case 2
    then show ?thesis by (rule commands_for_only_mem_protection)
  qed
qed

lemma rebind_symbols_for_image_empty_registry_mem:
  assumes "rebind_symbols_for_image [] header slide p = Some p'"
  shows "mem p' = mem p"
proof -
  from rebind_symbols_for_image_cases [of "[]" header slide p] assms
  consider "p' = p"
    | symtab strtab ind where
      "commands_for [] (load_commands p header) slide symtab strtab ind p = Some p'"
    by auto
  then show ?thesis
  proof cases
    case 1
    then show ?thesis by simp
  next
    case 2
    then show ?thesis by (rule commands_for_empty_registry_mem)
  qed
qed

lemma other_index:
  assumes "k \<noteq> unat i" and "k < 2 ^ 32"
  shows "binding_ptr sect slide i \<noteq> binding_ptr sect slide (of_nat k)"
proof -
  from assms have "(of_nat k :: 32 word) \<noteq> i"
    using unat_of_nat32 [of k] by auto
  then show ?thesis by (simp add: binding_ptr_inj)
qed

lemma section_for_slot_written:
  assumes run: "section_for registry sect slide symtab strtab ind p = Some (left, p')"
    and i: "unat i < unat (size_s sect div 8)"
    and r: "binding_ptr sect slide i \<notin> replaced_targets registry"
    and own: "\<And>t t'. symbol_loop registry sect slide symtab strtab ind i t = Some t' \<Longrightarrow>
        mem t' (binding_ptr sect slide i) = v"
  shows "mem p' (binding_ptr sect slide i) = v"
proof -
  let ?a = "binding_ptr sect slide i"
  let ?n = "unat (size_s sect div 8)"
  have "?n < 2 ^ 32 \<and> (unat i < ?n \<longrightarrow> mem p' ?a = v)"
  proof (rule section_for_invariant [where I = "\<lambda>k t. unat i < k \<longrightarrow> mem t ?a = v", OF run])
    show "unat i < 0 \<longrightarrow> mem p ?a = v" by simp
    show "unat i < Suc k \<longrightarrow> mem t' ?a = v"
      if k: "k < ?n" "k < 2 ^ 32" and inv: "unat i < k \<longrightarrow> mem t ?a = v"
        and s: "symbol_loop registry sect slide symtab strtab ind (of_nat k) t = Some t'" for k t t'
    proof (cases "k = unat i")
      case True
      then have "(of_nat k :: 32 word) = i" by simp
      with s have "symbol_loop registry sect slide symtab strtab ind i t = Some t'" by simp
      then have "mem t' ?a = v" by (rule own)
      then show ?thesis by simp
    next
      case False
      show ?thesis
      proof
        assume "unat i < Suc k"
        with False have lt: "unat i < k" by simp
        with inv have q: "mem t ?a = v" by simp
        from False k(2) have "?a \<noteq> binding_ptr sect slide (of_nat k)" by (rule other_index)
        from symbol_loop_mem_other [OF s this r] q show "mem t' ?a = v" by simp
      qed
    qed
  qed
  with i show ?thesis by simp
qed

lemma section_for_slot_kept:
  assumes run: "section_for registry sect slide symtab strtab ind p = Some (left, p')"
    and r: "binding_ptr sect slide i \<notin> replaced_targets registry"
    and own: "\<And>t. symbol_loop registry sect slide symtab strtab ind i t = Some t"
  shows "mem p' (binding_ptr sect slide i) = mem p (binding_ptr sect slide i)"
proof -
  let ?a = "binding_ptr sect slide i"
  let ?n = "unat (size_s sect div 8)"
  have "?n < 2 ^ 32 \<and> mem p' ?a = mem p ?a"
  proof (rule section_for_invariant [where I = "\<lambda>k t. mem t ?a = mem p ?a", OF run])
    show "mem p ?a = mem p ?a" by simp
    show "mem t' ?a = mem p ?a"
      if k: "k < ?n" "k < 2 ^ 32" and inv: "mem t ?a = mem p ?a"
        and s: "symbol_loop registry sect slide symtab strtab ind (of_nat k) t = Some t'" for k t t'
    proof (cases "k = unat i")
      case True
      then have "(of_nat k :: 32 word) = i" by simp
      with s own [of t] have "t' = t" by simp
      with inv show ?thesis by simp
    next
      case False
      from False k(2) have "?a \<noteq> binding_ptr sect slide (of_nat k)" by (rule other_index)
      from symbol_loop_mem_other [OF s this r] inv show ?thesis by simp
    qed
  qed
  then show ?thesis by simp
qed

lemma symbol_loop_sentinel:
  assumes "read_at ind (unat (reserved1 sect) + unat i) = Some symtab_index"
    and "symtab_index = INDIRECT_SYMBOL_ABS \<or> symtab_index = INDIRECT_SYMBOL_LOCAL \<or>
         symtab_index = (INDIRECT_SYMBOL_LOCAL OR INDIRECT_SYMBOL_ABS)"
  shows "symbol_loop registry sect slide symtab strtab ind i p = Some p"
  using assms by (simp add: symbol_loop_def)

lemma perform_slot_written:
  assumes run: "perform_rebinding_with_section registry sect slide symtab strtab ind p = Some p'"
    and i: "unat i < unat (size_s sect div 8)"
    and r: "binding_ptr sect slide i \<notin> replaced_targets registry"
    and own: "\<And>t t'. symbol_loop registry sect slide symtab strtab ind i t = Some t' \<Longrightarrow>
        mem t' (binding_ptr sect slide i) = v"
  shows "mem p' (binding_ptr sect slide i) = v"
proof -
  from perform_rebinding_with_section_result [OF run] obtain left p2 where
    s: "section_for registry sect slide symtab strtab ind
      (if segname sect = SEG_DATA_CONST
       then mprotect (slide + addr sect) (size_s sect) (PROT_READ OR PROT_WRITE) p else p)
      = Some (left, p2)"
    and p': "p' = (if segname sect = SEG_DATA_CONST
          then mprotect (slide + addr sect) (size_s sect)
                 (prot_of_vm_prot (get_protection p (head_ptr registry))) p2
          else p2)"
    by blast
  from section_for_slot_written [OF s i r own] have "mem p2 (binding_ptr sect slide i) = v" .
  with p' show ?thesis by (simp add: mprotect_mem split: if_splits)
qed

lemma perform_slot_kept:
  assumes run: "perform_rebinding_with_section registry sect slide symtab strtab ind p = Some p'"
    and r: "binding_ptr sect slide i \<notin> replaced_targets registry"
    and own: "\<And>t. symbol_loop registry sect slide symtab strtab ind i t = Some t"
  shows "mem p' (binding_ptr sect slide i) = mem p (binding_ptr sect slide i)"
proof -
  from perform_rebinding_with_section_result [OF run] obtain left p2 where
    s: "section_for registry sect slide symtab strtab ind
      (if segname sect = SEG_DATA_CONST
       then mprotect (slide + addr sect) (size_s sect) (PROT_READ OR PROT_WRITE) p else p)
      = Some (left, p2)"
    and p': "p' = (if segname sect = SEG_DATA_CONST
          then mprotect (slide + addr sect) (size_s sect)
                 (prot_of_vm_prot (get_protection p (head_ptr registry))) p2
          else p2)"
    by blast
  from section_for_slot_kept [OF s r own] p' show ?thesis
    by (simp add: mprotect_mem split: if_splits)
qed

section \<open>Evaluation of the small image\<close>

lemmas header_consts = SEG_DATA_def SEG_DATA_CONST_def SEG_LINKEDIT_def
  INDIRECT_SYMBOL_LOCAL_def INDIRECT_SYMBOL_ABS_def SECTION_TYPE_def
  S_NON_LAZY_SYMBOL_POINTERS_def S_LAZY_SYMBOL_POINTERS_def VM_PROT_READ_def VM_PROT_WRITE_def
  VM_PROT_EXECUTE_def PROT_READ_def PROT_WRITE_def PROT_EXEC_def nul_def

lemmas ex_defs = ex_strtab_def ex_symtab_def ex_indirect_def ex_text_def ex_got_def ex_la_def
  ex_data_def ex_cmds_def ex_process_def ex_open_A_def ex_open_B_def ex_close_C_def
  ex_registry_def ex_open_D_def ex_registry_D_def ex_close_E_def ex_registry_E_def

lemmas model_defs = perform_rebinding_with_section_def section_for_def uint_for.simps
  symbol_loop_def symbol_name_longer_than_1_def read_at_def rebindings_for_def
  rebindings_body_def name_test_def rewrite_binding_def binding_ptr_def get_protection_def
  mprotect_def Let_def

lemmas spec_defs = slot_symbol_def first_match_def name_matches_def c_string_def
  replaced_targets_def prot_of_vm_prot_def

lemma ex_got_run:
  "\<exists>p'. perform_rebinding_with_section ex_registry ex_got 0x100000 ex_symtab ex_strtab
      ex_indirect ex_process = Some p' \<and> mem p' 0x104000 = 0xC00"
  by (simp add: model_defs ex_defs header_consts)

lemma prepend_rebindings_success:
  assumes "prepend_rebindings new_entry new_vec older batch q = (0, registry, q')"
  shows "registry = \<lparr>entry_ptr = new_entry, rebindings_ptr = new_vec, rebindings = batch\<rparr> # older"
  using assms by (auto simp add: prepend_rebindings_def Let_def split: if_splits)





lemma name_matches_longer:
  assumes "name_matches S N"
  shows "symbol_name_longer_than_1 S = Some True"
proof -
  from assms obtain c0 c1 rest where "S = c0 # c1 # rest" "c0 \<noteq> nul" "c1 \<noteq> nul"
    by (auto simp add: name_matches_def split: list.splits)
  then show ?thesis by (simp add: symbol_name_longer_than_1_def read_at_def)
qed

lemma takeWhile_terminated:
  "takeWhile (\<lambda>c. c \<noteq> nul) (N @ [nul]) = takeWhile (\<lambda>c. c \<noteq> nul) N"
  by (induction N) simp_all

lemma c_string_name: "c_string (N @ [nul]) = Some (takeWhile (\<lambda>c. c \<noteq> nul) N)"
  by (simp add: c_string_def takeWhile_terminated)

lemma name_matches_explicit:
  "name_matches S N \<longleftrightarrow>
      (\<exists>c0 c1 rest. S = c0 # c1 # rest \<and> c0 \<noteq> nul \<and> c1 \<noteq> nul \<and>
         c_string (c1 # rest) = Some (takeWhile (\<lambda>c. c \<noteq> nul) N))"
proof (cases S)
  case Nil
  then show ?thesis by (simp add: name_matches_def)
next
  case (Cons c0 S1)
  show ?thesis
  proof (cases S1)
    case Nil
    with Cons show ?thesis by (simp add: name_matches_def)
  next
    case (Cons c1 rest)
    with \<open>S = c0 # S1\<close> show ?thesis
      by (simp add: name_matches_def c_string_name)
  qed
qed

text \<open>The second pass of the walker.\<close>

lemma rewrite_sections_append:
  "rewrite_sections registry (xs @ ys) slide symtab strtab ind p =
     (case rewrite_sections registry xs slide symtab strtab ind p of
        None \<Rightarrow> None
      | Some p' \<Rightarrow> rewrite_sections registry ys slide symtab strtab ind p')"
  by (induction xs arbitrary: p) (simp_all split: option.splits)

lemma section_types_differ: "S_LAZY_SYMBOL_POINTERS \<noteq> S_NON_LAZY_SYMBOL_POINTERS"
  by (simp add: S_LAZY_SYMBOL_POINTERS_def S_NON_LAZY_SYMBOL_POINTERS_def)

lemma sections_for_rewrite_sections:
  "sections_for registry sects slide symtab strtab ind p =
     rewrite_sections registry (filter pointer_section sects) slide symtab strtab ind p"
proof (induction sects arbitrary: p)
  case Nil
  show ?case by simp
next
  case (Cons sect sects)
  consider (lazy) "flags sect AND SECTION_TYPE = S_LAZY_SYMBOL_POINTERS"
    | (nonlazy) "flags sect AND SECTION_TYPE = S_NON_LAZY_SYMBOL_POINTERS"
    | (other) "flags sect AND SECTION_TYPE \<noteq> S_LAZY_SYMBOL_POINTERS"
        "flags sect AND SECTION_TYPE \<noteq> S_NON_LAZY_SYMBOL_POINTERS"
    by blast
  then show ?case
  proof cases
    case lazy
    with section_types_differ have "flags sect AND SECTION_TYPE \<noteq> S_NON_LAZY_SYMBOL_POINTERS"
      by simp
    with lazy Cons.IH show ?thesis by (simp add: pointer_section_def split: option.splits)
  next
    case nonlazy
    with section_types_differ have "flags sect AND SECTION_TYPE \<noteq> S_LAZY_SYMBOL_POINTERS"
      by simp
    with nonlazy Cons.IH show ?thesis by (simp add: pointer_section_def split: option.splits)
  next
    case other
    with Cons.IH show ?thesis by (simp add: pointer_section_def)
  qed
qed

lemma commands_for_rewrite_sections:
  "commands_for registry cmds slide symtab strtab ind p =
     rewrite_sections registry (scanned_sections cmds) slide symtab strtab ind p"
proof (induction cmds arbitrary: p)
  case Nil
  show ?case by simp
next
  case (Cons c cmds)
  show ?case
  proof (cases c)
    case (LC_SEGMENT_ARCH_DEPENDENT seg)
    with Cons.IH show ?thesis
      by (simp add: rewrite_sections_append sections_for_rewrite_sections split: option.splits)
  qed (use Cons.IH in simp_all)
qed

lemma rewrite_sections_mem_other:
  assumes "rewrite_sections registry sects slide symtab strtab ind p = Some p'"
    and "a \<notin> replaced_targets registry"
    and "\<forall>sect\<in>set sects. \<not> in_section sect slide a"
  shows "mem p' a = mem p a"
  using assms
proof (induction sects arbitrary: p)
  case Nil
  then show ?case by simp
next
  case (Cons sect sects)
  from Cons.prems(1) obtain p1 where
    p1: "perform_rebinding_with_section registry sect slide symtab strtab ind p = Some p1"
    and r: "rewrite_sections registry sects slide symtab strtab ind p1 = Some p'"
    by (auto split: option.splits)
  have "mem p1 a = mem p a"
  proof (rule perform_mem_other [OF p1 _ Cons.prems(2)])
    fix i :: "32 word"
    assume "unat i < unat (size_s sect div 8)"
    then have "in_section sect slide (binding_ptr sect slide i)" by (rule binding_ptr_in_section)
    with Cons.prems(3) show "a \<noteq> binding_ptr sect slide i" by auto
  qed
  moreover from Cons.IH [OF r Cons.prems(2)] Cons.prems(3) have "mem p' a = mem p1 a" by simp
  ultimately show ?case by simp
qed

lemma ex_walk:
  "\<exists>p'. rebind_symbols_for_image ex_registry 0x100000 0x100000 ex_process = Some p' \<and>
     mem p' 0x104000 = 0xC00 \<and> mem p' 0x108000 = 0xB00 \<and> mem p' 0x108008 = 0xC00"
  by (simp add: rebind_symbols_for_image_def model_defs ex_defs header_consts)

lemma last_option_Nil [simp]: "last_option [] = None"
  by (simp add: last_option_def)

lemma last_option_Cons:
  "last_option (x # xs) = Some (case last_option xs of None \<Rightarrow> x | Some y \<Rightarrow> y)"
  by (simp add: last_option_def)

lemma find_commands_eq:
  "find_commands cmds le st dy =
     (case last_option (linkedit_segments cmds) of None \<Rightarrow> le | Some x \<Rightarrow> Some x,
      case last_option (symtab_commands cmds) of None \<Rightarrow> st | Some x \<Rightarrow> Some x,
      case last_option (dysymtab_commands cmds) of None \<Rightarrow> dy | Some x \<Rightarrow> Some x)"
proof (induction cmds arbitrary: le st dy)
  case Nil
  show ?case by simp
next
  case (Cons c cmds)
  show ?case
    by (cases c) (simp_all add: Cons.IH last_option_Cons split: option.splits)
qed

text \<open>The registry and the allocator.\<close>

lemma prepend_rebindings_eq:
  "prepend_rebindings new_entry new_vec older batch p =
     (if new_entry = 0 then (- 1, older, p)
      else if new_vec = 0 then (- 1, older, free new_entry (malloc new_entry p))
      else (0, \<lparr>entry_ptr = new_entry, rebindings_ptr = new_vec, rebindings = batch\<rparr> # older,
            malloc new_vec (malloc new_entry p)))"
  by (simp add: prepend_rebindings_def Let_def malloc_def)

lemma malloc_free_only_allocated:
  "\<exists>al. free new_entry (malloc new_entry p) = p\<lparr>allocated := al\<rparr>"
proof (cases "new_entry = 0")
  case True
  then have "free new_entry (malloc new_entry p) = p\<lparr>allocated := allocated p\<rparr>"
    by (simp add: free_def malloc_def)
  then show ?thesis by blast
next
  case False
  then have "free new_entry (malloc new_entry p) = p\<lparr>allocated := allocated p - {new_entry}\<rparr>"
    by (simp add: free_def malloc_def)
  then show ?thesis by blast
qed

lemma images_for_only_mem_protection:
  "images_for images p = Some p' \<Longrightarrow> \<exists>m pr. p' = p\<lparr>mem := m, protection := pr\<rparr>"
proof (induction images arbitrary: p)
  case Nil
  then have "p' = p\<lparr>mem := mem p, protection := protection p\<rparr>" by simp
  then show ?case by blast
next
  case (Cons im images)
  obtain header slide where im: "im = (header, slide)" by (cases im)
  from Cons.prems im obtain p1 where
    p1: "rebind_symbols_for_image (rebindings_head p) header slide p = Some p1"
    and r: "images_for images p1 = Some p'"
    by (auto simp add: rebind_symbols_for_image_global_def split: option.splits)
  from rebind_symbols_for_image_only_mem_protection [OF p1] obtain m1 pr1 where
    "p1 = p\<lparr>mem := m1, protection := pr1\<rparr>" by blast
  moreover from Cons.IH [OF r] obtain m2 pr2 where
    "p' = p1\<lparr>mem := m2, protection := pr2\<rparr>" by blast
  ultimately have "p' = p\<lparr>mem := m2, protection := pr2\<rparr>" by simp
  then show ?case by blast
qed

lemmas api_defs = rebind_symbols_def rebind_symbols_image_def prepend_rebindings_def malloc_def
  free_def dyld_register_func_for_add_image_def rebind_symbols_for_image_global_def
  rebind_symbols_for_image_def

lemma ex_first_registration:
  "\<exists>p'. rebind_symbols 0x30000 0x30100 [ex_close_C, ex_open_B] ex_process = Some (0, p') \<and>
     mem p' 0x108000 = 0xB00 \<and> mem p' 0x104000 = 0xC00 \<and> add_image_funcs p' = 1"
  by (simp add: api_defs model_defs ex_defs header_consts)

lemma ex_second_registration:
  "\<exists>p'. rebind_symbols 0x30000 0x30100 [ex_close_C, ex_open_B]
       (ex_process\<lparr>rebindings_head := tl ex_registry\<rparr>) = Some (0, p') \<and>
     mem p' 0x108000 = 0xB00 \<and> add_image_funcs p' = 0"
  by (simp add: api_defs model_defs ex_defs header_consts)

lemma prot_of_vm_prot_bits:
  "(prot_of_vm_prot v AND PROT_READ \<noteq> 0 \<longleftrightarrow> v AND VM_PROT_READ \<noteq> 0) \<and>
   (prot_of_vm_prot v AND PROT_WRITE \<noteq> 0 \<longleftrightarrow> v AND VM_PROT_WRITE \<noteq> 0) \<and>
   (prot_of_vm_prot v AND PROT_EXEC \<noteq> 0 \<longleftrightarrow> v AND VM_PROT_EXECUTE \<noteq> 0) \<and>
   prot_of_vm_prot v AND NOT (PROT_READ OR PROT_WRITE OR PROT_EXEC) = 0"
  by (cases "v AND VM_PROT_READ = 0"; cases "v AND VM_PROT_WRITE = 0";
      cases "v AND VM_PROT_EXECUTE = 0")
    (simp_all add: prot_of_vm_prot_def PROT_READ_def PROT_WRITE_def PROT_EXEC_def)

lemma rebind_symbols_image_eq:
  "rebind_symbols_image new_entry new_vec header slide batch p =
     (if new_entry = 0
      then map_option (Pair (- 1)) (rebind_symbols_for_image [] header slide p)
      else if new_vec = 0
      then map_option (Pair (- 1))
             (rebind_symbols_for_image [] header slide (free new_entry (malloc new_entry p)))
      else map_option (\<lambda>p2. (0, free new_entry (free new_vec p2)))
             (rebind_symbols_for_image
                [\<lparr>entry_ptr = new_entry, rebindings_ptr = new_vec, rebindings = batch\<rparr>]
                header slide (malloc new_vec (malloc new_entry p))))"
  by (simp add: rebind_symbols_image_def prepend_rebindings_eq Let_def free_def
      split: option.splits)

lemma ex_local:
  "\<exists>p'. rebind_symbols_image 0x30000 0x30100 0x100000 0x100000 [ex_open_A] ex_process
       = Some (0, p') \<and> mem p' 0x108000 = 0xA00 \<and> mem p' 0x20000 = 0x108001"
  by (simp add: api_defs model_defs ex_defs header_consts)

lemma ex_local_failure:
  "(\<exists>p'. rebind_symbols_image 0 0x30100 0x100000 0x100000 [ex_open_A] ex_process
       = Some (- 1, p') \<and> protection p' 0x104000 = Some 1) \<and>
   (\<exists>p'. rebind_symbols_image 0x30000 0 0x100000 0x100000 [ex_open_A] ex_process
       = Some (- 1, p'))"
  by (simp add: api_defs model_defs ex_defs header_consts)

text \<open>When the loops return.\<close>

lemma uint_for_returns:
  assumes n: "n < 2 ^ 32"
    and body: "\<And>k t. unat k < n \<Longrightarrow> body k t \<noteq> None"
  shows "unat i \<le> n \<Longrightarrow> \<exists>y. uint_for n body i s = Some y"
proof (induction "n - unat i" arbitrary: i s)
  case 0
  then have "\<not> unat i < n" by simp
  then have "uint_for n body i s = Some (False, s)" by (subst uint_for.simps) simp
  then show ?case by blast
next
  case (Suc d)
  then have lt: "unat i < n" by simp
  from body [OF lt, of s] obtain leave s' where b: "body i s = Some (leave, s')" by auto
  show ?case
  proof (cases leave)
    case True
    with lt b have "uint_for n body i s = Some (True, s')" by (subst uint_for.simps) simp
    then show ?thesis by blast
  next
    case False
    have su: "unat (i + 1) = Suc (unat i)" using lt n by (rule unat_succ32)
    with Suc.hyps(2) lt have "d = n - unat (i + 1)" "unat (i + 1) \<le> n" by simp_all
    from Suc.hyps(1) [OF this] obtain y where "uint_for n body (i + 1) s' = Some y" by blast
    moreover from lt b False have "uint_for n body i s = uint_for n body (i + 1) s'"
      by (subst uint_for.simps) simp
    ultimately show ?thesis by simp
  qed
qed

lemma c_string_tl:
  assumes "c_string S \<noteq> None" and "S = c0 # S1" and "c0 \<noteq> nul"
  shows "c_string S1 \<noteq> None"
  using assms by (auto simp add: c_string_def split: if_splits)

lemma strcmp_returns:
  "c_string A \<noteq> None \<Longrightarrow> c_string B \<noteq> None \<Longrightarrow> strcmp A B \<noteq> None"
proof (induction A B rule: strcmp.induct)
  case (1 a as b bs)
  show ?case
  proof (cases "a = b \<and> a \<noteq> nul")
    case True
    with 1 show ?thesis by (auto simp add: c_string_Cons split: if_splits)
  next
    case False
    then show ?thesis by auto
  qed
qed simp_all

lemma symbol_name_longer_than_1_returns:
  assumes "c_string S \<noteq> None"
  shows "\<exists>l. symbol_name_longer_than_1 S = Some l \<and> (l \<longrightarrow> c_string (drop 1 S) \<noteq> None)"
proof (cases S)
  case Nil
  with assms show ?thesis by simp
next
  case (Cons c0 S1)
  show ?thesis
  proof (cases "c0 = nul")
    case True
    with Cons have "symbol_name_longer_than_1 S = Some False"
      by (simp add: symbol_name_longer_than_1_def read_at_def)
    then show ?thesis by blast
  next
    case False
    from c_string_tl [OF assms Cons False] have t: "c_string S1 \<noteq> None" .
    then obtain c1 S2 where "S1 = c1 # S2" by (cases S1) auto
    with Cons False have "symbol_name_longer_than_1 S = Some (c1 \<noteq> nul)"
      by (simp add: symbol_name_longer_than_1_def read_at_def)
    moreover from Cons t have "c_string (drop 1 S) \<noteq> None" by simp
    ultimately show ?thesis by blast
  qed
qed

lemma name_test_returns:
  assumes "l \<longrightarrow> c_string (drop 1 S) \<noteq> None"
  shows "name_test l S r \<noteq> None"
proof (cases l)
  case True
  with assms have "strcmp (drop 1 S) (name r @ [nul]) \<noteq> None"
    by (intro strcmp_returns) simp_all
  with True show ?thesis by (auto simp add: name_test_def)
next
  case False
  then show ?thesis by (simp add: name_test_def)
qed

lemma rebindings_for_returns:
  assumes "l \<longrightarrow> c_string (drop 1 S) \<noteq> None" and "length rs < 2 ^ 32"
  shows "\<exists>y. rebindings_for l S slot rs p = Some y"
  unfolding rebindings_for_def
proof (rule uint_for_returns [OF assms(2)])
  show "rebindings_body l S slot rs k t \<noteq> None" for k t
    using name_test_returns [OF assms(1), of "rs ! unat k"]
    by (auto simp add: rebindings_body_def)
qed simp

lemma rebindings_while_returns:
  assumes "l \<longrightarrow> c_string (drop 1 S) \<noteq> None" and "registry_bounded registry"
  shows "\<exists>p'. rebindings_while l S slot registry p = Some p'"
  using assms(2)
proof (induction registry arbitrary: p)
  case Nil
  show ?case by simp
next
  case (Cons cur rest)
  then have b: "length (rebindings cur) < 2 ^ 32" and r: "registry_bounded rest"
    by (simp_all add: registry_bounded_def)
  from rebindings_for_returns [OF assms(1) b] obtain found p1 where
    "rebindings_for l S slot (rebindings cur) p = Some (found, p1)" by fastforce
  with Cons.IH [OF r, of p1] show ?case by auto
qed

lemma symbol_loop_returns:
  assumes "slot_readable sect symtab strtab ind i" and "registry_bounded registry"
  shows "\<exists>p'. symbol_loop registry sect slide symtab strtab ind i p = Some p'"
proof -
  from assms(1) obtain idx where idx: "read_at ind (unat (reserved1 sect) + unat i) = Some idx"
    by (auto simp add: slot_readable_def split: option.splits)
  show ?thesis
  proof (cases "idx = INDIRECT_SYMBOL_ABS \<or> idx = INDIRECT_SYMBOL_LOCAL \<or>
      idx = (INDIRECT_SYMBOL_LOCAL OR INDIRECT_SYMBOL_ABS)")
    case True
    with idx show ?thesis by (simp add: symbol_loop_def)
  next
    case False
    with assms(1) idx obtain nl where nl: "read_at symtab (unat idx) = Some nl"
      and c: "c_string (drop (unat (n_strx nl)) strtab) \<noteq> None"
      by (auto simp add: slot_readable_def split: option.splits)
    from symbol_name_longer_than_1_returns [OF c] obtain l where
      l: "symbol_name_longer_than_1 (drop (unat (n_strx nl)) strtab) = Some l"
      and t: "l \<longrightarrow> c_string (drop 1 (drop (unat (n_strx nl)) strtab)) \<noteq> None"
      by blast
    from rebindings_while_returns [OF t assms(2)] idx False nl l show ?thesis
      by (simp add: symbol_loop_def Let_def)
  qed
qed

lemma section_for_returns:
  assumes "section_readable sect symtab strtab ind" and "registry_bounded registry"
  shows "\<exists>y. section_for registry sect slide symtab strtab ind p = Some y"
  unfolding section_for_def
proof (rule uint_for_returns)
  from assms(1) show "unat (size_s sect div 8) < 2 ^ 32" by (simp add: section_readable_def)
  show "map_option (Pair False) (symbol_loop registry sect slide symtab strtab ind k t) \<noteq> None"
    if "unat k < unat (size_s sect div 8)" for k t
  proof -
    from assms(1) have "\<forall>j\<in>set [0 ..< unat (size_s sect div 8)].
        slot_readable sect symtab strtab ind (of_nat j)"
      by (simp add: section_readable_def list_all_iff)
    moreover from that have "unat k \<in> set [0 ..< unat (size_s sect div 8)]" by simp
    ultimately have "slot_readable sect symtab strtab ind (of_nat (unat k))" by blast
    then have "slot_readable sect symtab strtab ind k" by simp
    from symbol_loop_returns [OF this assms(2)] show ?thesis by auto
  qed
qed simp

lemma perform_rebinding_with_section_returns:
  assumes "section_readable sect symtab strtab ind" and "registry_bounded registry"
  shows "\<exists>p'. perform_rebinding_with_section registry sect slide symtab strtab ind p = Some p'"
proof -
  let ?p1 = "if segname sect = SEG_DATA_CONST
      then mprotect (slide + addr sect) (size_s sect) (PROT_READ OR PROT_WRITE) p else p"
  from section_for_returns [OF assms] obtain left p2 where
    "section_for registry sect slide symtab strtab ind ?p1 = Some (left, p2)" by fastforce
  then show ?thesis
    by (cases "segname sect = SEG_DATA_CONST")
      (simp_all add: perform_rebinding_with_section_def Let_def)
qed

lemma rewrite_sections_returns:
  assumes "list_all (\<lambda>sect. section_readable sect symtab strtab ind) sects"
    and "registry_bounded registry"
  shows "\<exists>p'. rewrite_sections registry sects slide symtab strtab ind p = Some p'"
  using assms(1)
proof (induction sects arbitrary: p)
  case Nil
  show ?case by simp
next
  case (Cons sect sects)
  then have s: "section_readable sect symtab strtab ind"
    and r: "list_all (\<lambda>sect. section_readable sect symtab strtab ind) sects" by simp_all
  from perform_rebinding_with_section_returns [OF s assms(2)] obtain p1 where
    "perform_rebinding_with_section registry sect slide symtab strtab ind p = Some p1" by blast
  with Cons.IH [OF r, of p1] show ?case by simp
qed

lemma rebind_symbols_for_image_eq:
  "rebind_symbols_for_image registry header slide p =
     (if \<not> dladdr p header then Some p
      else case linkedit_tables p header slide of
             None \<Rightarrow> Some p
           | Some (symtab, strtab, ind) \<Rightarrow>
               rewrite_sections registry (scanned_sections (load_commands p header)) slide
                 symtab strtab ind p)"
  by (auto simp add: rebind_symbols_for_image_def linkedit_tables_def find_commands_eq Let_def
      commands_for_rewrite_sections split: option.splits)

lemma rebind_symbols_for_image_returns:
  assumes "image_readable p header slide" and "registry_bounded registry"
  shows "\<exists>p'. rebind_symbols_for_image registry header slide p = Some p'"
proof (cases "linkedit_tables p header slide")
  case None
  then show ?thesis by (simp add: rebind_symbols_for_image_eq)
next
  case (Some tabs)
  obtain symtab strtab ind where t: "tabs = (symtab, strtab, ind)" by (cases tabs)
  with assms(1) Some have "list_all (\<lambda>sect. section_readable sect symtab strtab ind)
      (scanned_sections (load_commands p header))"
    by (simp add: image_readable_def)
  from rewrite_sections_returns [OF this assms(2)] Some t show ?thesis
    by (simp add: rebind_symbols_for_image_eq)
qed

lemma linkedit_tables_frame:
  "linkedit_tables (p\<lparr>mem := m, protection := pr\<rparr>) header slide = linkedit_tables p header slide"
  by (auto simp add: linkedit_tables_def split: option.splits)

lemma image_readable_frame:
  "image_readable (p\<lparr>mem := m, protection := pr\<rparr>) header slide = image_readable p header slide"
  by (simp add: image_readable_def linkedit_tables_frame split: option.splits)

lemma images_for_returns:
  assumes "list_all (\<lambda>(header, slide). image_readable p header slide) images"
    and "registry_bounded (rebindings_head p)"
  shows "\<exists>p'. images_for images p = Some p'"
  using assms
proof (induction images arbitrary: p)
  case Nil
  show ?case by simp
next
  case (Cons im images)
  obtain header slide where im: "im = (header, slide)" by (cases im)
  with Cons.prems have r: "image_readable p header slide"
    and rest: "list_all (\<lambda>(header, slide). image_readable p header slide) images" by simp_all
  from rebind_symbols_for_image_returns [OF r Cons.prems(2)] obtain p1 where
    p1: "rebind_symbols_for_image (rebindings_head p) header slide p = Some p1" by blast
  from rebind_symbols_for_image_only_mem_protection [OF p1] obtain m pr where
    e: "p1 = p\<lparr>mem := m, protection := pr\<rparr>" by blast
  from rest e have "list_all (\<lambda>(header, slide). image_readable p1 header slide) images"
    by (simp add: image_readable_frame)
  moreover from e Cons.prems(2) have "registry_bounded (rebindings_head p1)" by simp
  ultimately obtain p' where "images_for images p1 = Some p'" using Cons.IH by blast
  with p1 im show ?case by (simp add: rebind_symbols_for_image_global_def)
qed

lemma ex_registry_bounded: "registry_bounded ex_registry"
  by (simp add: registry_bounded_def ex_defs)

lemma upt_0_2: "[0 ..< 2 :: nat] = [0, 1]"
  by (simp add: numeral_2_eq_2)

lemma ex_la_readable: "section_readable ex_la ex_symtab ex_strtab ex_indirect"
proof -
  have n: "unat (size_s ex_la div 8) = 2" by (simp add: ex_la_def)
  show ?thesis
    unfolding section_readable_def n upt_0_2
    by (simp add: slot_readable_def read_at_def c_string_def ex_defs header_consts)
qed

lemma ex_got_readable: "section_readable ex_got ex_symtab ex_strtab ex_indirect"
proof -
  have n: "unat (size_s ex_got div 8) = 2" by (simp add: ex_got_def)
  show ?thesis
    unfolding section_readable_def n upt_0_2
    by (simp add: slot_readable_def read_at_def c_string_def ex_defs header_consts)
qed

lemma ex_tables:
  "linkedit_tables ex_process 0x100000 0x100000 = Some (ex_symtab, ex_strtab, ex_indirect)"
  by (simp add: linkedit_tables_def last_option_def ex_process_def ex_cmds_def header_consts)

lemma ex_scanned: "scanned_sections ex_cmds = [ex_got, ex_la]"
  by (simp add: pointer_section_def ex_defs header_consts)

lemma ex_image_readable: "image_readable ex_process 0x100000 0x100000"
  using ex_la_readable ex_got_readable
  by (simp add: image_readable_def ex_tables) (simp add: ex_process_def ex_scanned)

lemma image_readable_cong:
  assumes "load_commands p' = load_commands p" and "nlist_at p' = nlist_at p"
    and "chars_at p' = chars_at p" and "uint32_at p' = uint32_at p"
  shows "image_readable p' header slide = image_readable p header slide"
  unfolding image_readable_def linkedit_tables_def assms by (rule refl)

lemma rebind_symbols_returns:
  assumes h: "new_entry \<noteq> 0 \<and> new_vec \<noteq> 0 \<and> length batch < 2 ^ 32 \<and>
      registry_bounded (rebindings_head p) \<and>
      list_all (\<lambda>(header, slide). image_readable p header slide) (dyld_images p)"
  shows "\<exists>p'. rebind_symbols new_entry new_vec batch p = Some (0, p')"
proof -
  let ?node = "\<lparr>entry_ptr = new_entry, rebindings_ptr = new_vec, rebindings = batch\<rparr>"
  let ?p2 = "(malloc new_vec (malloc new_entry p))\<lparr>rebindings_head := ?node # rebindings_head p\<rparr>"
  let ?p3 = "if rebindings_head p = [] then ?p2\<lparr>add_image_funcs := Suc (add_image_funcs ?p2)\<rparr>
      else ?p2"
  have fr: "image_readable ?p3 header slide = image_readable p header slide" for header slide
    by (rule image_readable_cong) (simp_all add: malloc_def)
  have im: "dyld_images ?p3 = dyld_images p" by (simp add: malloc_def)
  have hd: "rebindings_head ?p3 = ?node # rebindings_head p" by simp
  from h have "list_all (\<lambda>(header, slide). image_readable p header slide) (dyld_images p)"
    by simp
  then have "list_all (\<lambda>(header, slide). image_readable ?p3 header slide) (dyld_images ?p3)"
    unfolding im fr .
  moreover from h have "registry_bounded (rebindings_head ?p3)"
    unfolding hd by (simp add: registry_bounded_def)
  ultimately obtain p' where w: "images_for (dyld_images ?p3) ?p3 = Some p'"
    using images_for_returns by blast
  have "rebind_symbols new_entry new_vec batch p = Some (0, p')"
  proof (cases "rebindings_head p = []")
    case True
    with w have "images_for (dyld_images ?p2) (?p2\<lparr>add_image_funcs := Suc (add_image_funcs ?p2)\<rparr>)
        = Some p'" by simp
    with True h show ?thesis
      by (simp add: rebind_symbols_def prepend_rebindings_eq Let_def
          dyld_register_func_for_add_image_def malloc_def)
  next
    case False
    with w have "images_for (dyld_images ?p2) ?p2 = Some p'" by simp
    with False h show ?thesis
      by (simp add: rebind_symbols_def prepend_rebindings_eq Let_def malloc_def)
  qed
  then show ?thesis by blast
qed

lemma registry_bounded_Nil: "registry_bounded []"
  by (simp add: registry_bounded_def)

lemma rebind_symbols_image_returns:
  assumes "new_entry \<noteq> 0 \<and> new_vec \<noteq> 0 \<and> length batch < 2 ^ 32 \<and>
      image_readable p header slide"
  shows "\<exists>p'. rebind_symbols_image new_entry new_vec header slide batch p = Some (0, p')"
proof -
  let ?reg = "[\<lparr>entry_ptr = new_entry, rebindings_ptr = new_vec, rebindings = batch\<rparr>]"
  let ?p1 = "malloc new_vec (malloc new_entry p)"
  have "image_readable ?p1 header slide = image_readable p header slide"
    by (rule image_readable_cong) (simp_all add: malloc_def)
  with assms have r: "image_readable ?p1 header slide" by simp
  from assms have b: "registry_bounded ?reg" by (simp add: registry_bounded_def)
  from rebind_symbols_for_image_returns [OF r b] obtain p2 where
    "rebind_symbols_for_image ?reg header slide ?p1 = Some p2" by blast
  with assms have "rebind_symbols_image new_entry new_vec header slide batch p
      = Some (0, free new_entry (free new_vec p2))"
    by (simp add: rebind_symbols_image_eq)
  then show ?thesis by blast
qed

lemma rebind_symbols_image_fails:
  assumes "(new_entry = 0 \<or> new_vec = 0) \<and> image_readable p header slide"
  shows "\<exists>p'. rebind_symbols_image new_entry new_vec header slide batch p = Some (- 1, p')"
proof -
  let ?p1 = "if new_entry = 0 then p else free new_entry (malloc new_entry p)"
  have "image_readable ?p1 header slide = image_readable p header slide"
    by (rule image_readable_cong) (simp_all add: malloc_def free_def)
  with assms have r: "image_readable ?p1 header slide" by simp
  from rebind_symbols_for_image_returns [OF r registry_bounded_Nil] obtain p2 where
    "rebind_symbols_for_image [] header slide ?p1 = Some p2" by blast
  with assms have "rebind_symbols_image new_entry new_vec header slide batch p = Some (- 1, p2)"
    by (auto simp add: rebind_symbols_image_eq)
  then show ?thesis by blast
qed



section \<open>Properties of the rebinding engine\<close>

text \<open>
  C3, amended. A slot whose entry of the indirect symbol table is \<^verbatim>\<open>INDIRECT_SYMBOL_ABS\<close>,
  \<^verbatim>\<open>INDIRECT_SYMBOL_LOCAL\<close> or their bitwise or is never rewritten and never captured,
  for every registry: the iteration of the slot changes nothing in the process. After
  the whole section has been processed (the rewriter returns on every readable section
  with a bounded registry) the slot holds the value it held before, unless a registered
  \<^verbatim>\<open>replaced\<close> pointer refers to the slot itself: the slot then receives the binding
  captured from another slot.
\<close>

theorem sentinel_slot_untouched:
  assumes "read_at ind (unat (reserved1 sect) + unat i) = Some symtab_index"
    and "symtab_index = INDIRECT_SYMBOL_ABS \<or> symtab_index = INDIRECT_SYMBOL_LOCAL \<or>
         symtab_index = (INDIRECT_SYMBOL_LOCAL OR INDIRECT_SYMBOL_ABS)"
  shows "symbol_loop registry sect slide symtab strtab ind i p = Some p \<and>
    (section_readable sect symtab strtab ind \<and> registry_bounded registry \<longrightarrow>
       (\<exists>q'. perform_rebinding_with_section registry sect slide symtab strtab ind q = Some q')) \<and>
    (perform_rebinding_with_section registry sect slide symtab strtab ind q = Some q' \<and>
     binding_ptr sect slide i \<notin> replaced_targets registry \<longrightarrow>
     mem q' (binding_ptr sect slide i) = mem q (binding_ptr sect slide i))"
proof -
  have own: "symbol_loop registry sect slide symtab strtab ind i t = Some t" for t
    using assms by (rule symbol_loop_sentinel)
  show ?thesis
  proof (intro conjI impI)
    show "symbol_loop registry sect slide symtab strtab ind i p = Some p" by (rule own)
    show "\<exists>q'. perform_rebinding_with_section registry sect slide symtab strtab ind q = Some q'"
      if "section_readable sect symtab strtab ind \<and> registry_bounded registry"
      using that perform_rebinding_with_section_returns by blast
    assume "perform_rebinding_with_section registry sect slide symtab strtab ind q = Some q' \<and>
      binding_ptr sect slide i \<notin> replaced_targets registry"
    then show "mem q' (binding_ptr sect slide i) = mem q (binding_ptr sect slide i)"
      using perform_slot_kept [OF _ _ own] by blast
  qed
qed

theorem sentinel_slot_untouched_witness:
  "read_at ex_indirect (unat (reserved1 ex_got) + unat (1 :: 32 word)) = Some INDIRECT_SYMBOL_LOCAL \<and>
   symbol_loop ex_registry ex_got 0x100000 ex_symtab ex_strtab ex_indirect 1 ex_process
     = Some ex_process \<and>
   section_readable ex_got ex_symtab ex_strtab ex_indirect \<and> registry_bounded ex_registry \<and>
   (\<exists>q'. perform_rebinding_with_section ex_registry ex_got 0x100000 ex_symtab ex_strtab
       ex_indirect ex_process = Some q' \<and>
     binding_ptr ex_got 0x100000 1 \<notin> replaced_targets ex_registry \<and>
     mem q' (binding_ptr ex_got 0x100000 1) = mem ex_process (binding_ptr ex_got 0x100000 1) \<and>
     mem q' (binding_ptr ex_got 0x100000 0) \<noteq> mem ex_process (binding_ptr ex_got 0x100000 0))"
proof -
  have idx: "read_at ex_indirect (unat (reserved1 ex_got) + unat (1 :: 32 word))
      = Some INDIRECT_SYMBOL_LOCAL"
    by (simp add: read_at_def ex_defs header_consts)
  have sen: "INDIRECT_SYMBOL_LOCAL = INDIRECT_SYMBOL_ABS \<or>
      INDIRECT_SYMBOL_LOCAL = INDIRECT_SYMBOL_LOCAL \<or>
      INDIRECT_SYMBOL_LOCAL = (INDIRECT_SYMBOL_LOCAL OR INDIRECT_SYMBOL_ABS)"
    by simp
  note base = sentinel_slot_untouched [OF idx sen, where registry = ex_registry
      and slide = "0x100000" and symtab = ex_symtab and strtab = ex_strtab
      and p = ex_process and q = ex_process]
  from base [THEN conjunct2, THEN conjunct1] ex_got_readable ex_registry_bounded obtain q' where
    run: "perform_rebinding_with_section ex_registry ex_got 0x100000 ex_symtab ex_strtab
      ex_indirect ex_process = Some q'"
    by blast
  from ex_got_run run have other: "mem q' 0x104000 = 0xC00" by auto
  have free: "binding_ptr ex_got 0x100000 1 \<notin> replaced_targets ex_registry"
    by (simp add: binding_ptr_def replaced_targets_def ex_defs)
  from base [THEN conjunct1]
  have it: "symbol_loop ex_registry ex_got 0x100000 ex_symtab ex_strtab ex_indirect 1 ex_process
      = Some ex_process" .
  from base [where q' = q', THEN conjunct2, THEN conjunct2] run free
  have kept: "mem q' (binding_ptr ex_got 0x100000 1) = mem ex_process (binding_ptr ex_got 0x100000 1)"
    by blast
  from other have changed:
    "mem q' (binding_ptr ex_got 0x100000 0) \<noteq> mem ex_process (binding_ptr ex_got 0x100000 0)"
    by (simp add: binding_ptr_def ex_defs)
  have s: "\<exists>q'. perform_rebinding_with_section ex_registry ex_got 0x100000 ex_symtab ex_strtab
       ex_indirect ex_process = Some q' \<and>
     binding_ptr ex_got 0x100000 1 \<notin> replaced_targets ex_registry \<and>
     mem q' (binding_ptr ex_got 0x100000 1) = mem ex_process (binding_ptr ex_got 0x100000 1) \<and>
     mem q' (binding_ptr ex_got 0x100000 0) \<noteq> mem ex_process (binding_ptr ex_got 0x100000 0)"
    using run free kept changed by (intro exI conjI)
  from idx it ex_got_readable ex_registry_bounded s show ?thesis by (intro conjI)
qed

text \<open>
  C3 without the exception fails. The second slot of the \<^verbatim>\<open>__got\<close> section of the small
  image, at \<open>0x104008\<close>, is the slot of a local symbol. With a rebinding of \<^verbatim>\<open>close\<close>
  whose \<^verbatim>\<open>replaced\<close> pointer is the address of that slot, the rewrite of the first slot
  stores the old binding of \<^verbatim>\<open>close\<close> there (line 151).
\<close>

theorem sentinel_slot_untouched_counterexample:
  "read_at ex_indirect (unat (reserved1 ex_got) + unat (1 :: 32 word)) = Some INDIRECT_SYMBOL_LOCAL \<and>
   binding_ptr ex_got 0x100000 1 = 0x104008 \<and>
   replaced_targets ex_registry_E = {0x104008} \<and>
   mem ex_process 0x104008 = 0x104009 \<and>
   cell_after (perform_rebinding_with_section ex_registry_E ex_got 0x100000 ex_symtab ex_strtab
      ex_indirect ex_process) 0x104008 = Some 0x104001"
proof -
  have idx: "read_at ex_indirect (unat (reserved1 ex_got) + unat (1 :: 32 word))
      = Some INDIRECT_SYMBOL_LOCAL"
    by (simp add: read_at_def ex_defs header_consts)
  have slot: "binding_ptr ex_got 0x100000 1 = 0x104008"
    by (simp add: binding_ptr_def ex_defs)
  have tg: "replaced_targets ex_registry_E = {0x104008}"
    by (simp add: replaced_targets_def ex_defs)
  have m: "mem ex_process 0x104008 = 0x104009" by (simp add: ex_process_def)
  have r: "cell_after (perform_rebinding_with_section ex_registry_E ex_got 0x100000 ex_symtab
      ex_strtab ex_indirect ex_process) 0x104008 = Some 0x104001"
    by (simp add: cell_after_def model_defs ex_defs header_consts)
  from idx slot tg m r show ?thesis by (intro conjI)
qed

text \<open>
  C1. For a slot whose symbol name is matched by a registered rebinding, the iteration of
  the slot does the rewrite of the first matching rebinding of the registry, read from
  the head batch to the last and inside a batch in array order, and nothing else; after
  the whole section the slot holds that replacement (unless a registered \<^verbatim>\<open>replaced\<close>
  pointer refers to the slot itself). A registry that \<^verbatim>\<open>prepend_rebindings\<close> built from
  an older one is searched in the new batch first, so the later registration wins. The
  rewriter returns on every readable section with a bounded registry.
\<close>

theorem first_match_wins:
  assumes "slot_symbol sect symtab strtab ind i = Some S"
    and "first_match S registry = Some r"
  shows "(symbol_loop registry sect slide symtab strtab ind i p = Some p' \<longrightarrow>
            p' = rewrite_binding r (binding_ptr sect slide i) p) \<and>
         (perform_rebinding_with_section registry sect slide symtab strtab ind q = Some q' \<and>
          unat i < unat (size_s sect div 8) \<and>
          binding_ptr sect slide i \<notin> replaced_targets registry \<longrightarrow>
            mem q' (binding_ptr sect slide i) = replacement r) \<and>
         (prepend_rebindings new_entry new_vec older batch qa = (0, registry, qb) \<longrightarrow>
            Some r = (case find (\<lambda>r. name_matches S (name r)) batch of
                        Some r' \<Rightarrow> Some r'
                      | None \<Rightarrow> first_match S older)) \<and>
         (section_readable sect symtab strtab ind \<and> registry_bounded registry \<longrightarrow>
            (\<exists>q'. perform_rebinding_with_section registry sect slide symtab strtab ind q
               = Some q'))"
proof (intro conjI impI)
  show "\<exists>q'. perform_rebinding_with_section registry sect slide symtab strtab ind q = Some q'"
    if "section_readable sect symtab strtab ind \<and> registry_bounded registry"
    using that perform_rebinding_with_section_returns by blast
  have own: "t' = rewrite_binding r (binding_ptr sect slide i) t"
    if "symbol_loop registry sect slide symtab strtab ind i t = Some t'" for t t'
    using symbol_loop_result [OF that] assms by simp
  show "p' = rewrite_binding r (binding_ptr sect slide i) p"
    if "symbol_loop registry sect slide symtab strtab ind i p = Some p'"
    using that by (rule own)
  show "mem q' (binding_ptr sect slide i) = replacement r"
    if h: "perform_rebinding_with_section registry sect slide symtab strtab ind q = Some q' \<and>
      unat i < unat (size_s sect div 8) \<and>
      binding_ptr sect slide i \<notin> replaced_targets registry"
  proof (rule perform_slot_written)
    show "perform_rebinding_with_section registry sect slide symtab strtab ind q = Some q'"
      using h by simp
    show "unat i < unat (size_s sect div 8)" using h by simp
    show "binding_ptr sect slide i \<notin> replaced_targets registry" using h by simp
    show "mem t' (binding_ptr sect slide i) = replacement r"
      if "symbol_loop registry sect slide symtab strtab ind i t = Some t'" for t t'
      using own [OF that] by (simp add: rewrite_binding_slot)
  qed
  show "Some r = (case find (\<lambda>r. name_matches S (name r)) batch of
                        Some r' \<Rightarrow> Some r'
                      | None \<Rightarrow> first_match S older)"
    if "prepend_rebindings new_entry new_vec older batch qa = (0, registry, qb)"
    using prepend_rebindings_success [OF that] assms(2)
    by (auto simp add: first_match_def find_append_case split: option.splits)
qed

theorem first_match_wins_witness:
  "slot_symbol ex_la ex_symtab ex_strtab ex_indirect 0 = Some (''_open'' @ [nul]) \<and>
   first_match (''_open'' @ [nul]) ex_registry = Some ex_open_B \<and>
   (\<exists>p'. symbol_loop ex_registry ex_la 0x100000 ex_symtab ex_strtab ex_indirect 0 ex_process
       = Some p' \<and>
     p' = rewrite_binding ex_open_B (binding_ptr ex_la 0x100000 0) ex_process) \<and>
   (\<exists>q'. perform_rebinding_with_section ex_registry ex_la 0x100000 ex_symtab ex_strtab
       ex_indirect ex_process = Some q' \<and>
     unat (0 :: 32 word) < unat (size_s ex_la div 8) \<and>
     binding_ptr ex_la 0x100000 0 \<notin> replaced_targets ex_registry \<and>
     mem q' (binding_ptr ex_la 0x100000 0) = replacement ex_open_B) \<and>
   (\<exists>q1. prepend_rebindings 0x30000 0x30100 (tl ex_registry) [ex_close_C, ex_open_B] ex_process
       = (0, ex_registry, q1)) \<and>
   find (\<lambda>r. name_matches (''_open'' @ [nul]) (name r)) [ex_close_C, ex_open_B] = Some ex_open_B \<and>
   first_match (''_open'' @ [nul]) (tl ex_registry) = Some ex_open_A"
proof -
  let ?S = "''_open'' @ [nul]"
  have sym: "slot_symbol ex_la ex_symtab ex_strtab ex_indirect 0 = Some ?S"
    by (simp add: slot_symbol_def read_at_def ex_defs header_consts)
  have fm: "first_match ?S ex_registry = Some ex_open_B"
    by (simp add: spec_defs ex_defs header_consts)
  have it: "\<exists>p'. symbol_loop ex_registry ex_la 0x100000 ex_symtab ex_strtab ex_indirect 0
      ex_process = Some p'"
    by (simp add: model_defs ex_defs header_consts)
  then obtain p' where p': "symbol_loop ex_registry ex_la 0x100000 ex_symtab ex_strtab
      ex_indirect 0 ex_process = Some p'" by blast
  from first_match_wins [OF sym fm, where slide = "0x100000" and q = ex_process]
    ex_la_readable ex_registry_bounded
  obtain q' where q': "perform_rebinding_with_section ex_registry ex_la 0x100000
      ex_symtab ex_strtab ex_indirect ex_process = Some q'" by blast
  have n: "unat (0 :: 32 word) < unat (size_s ex_la div 8)" by (simp add: ex_defs)
  have free: "binding_ptr ex_la 0x100000 0 \<notin> replaced_targets ex_registry"
    by (simp add: binding_ptr_def replaced_targets_def ex_defs)
  have pre: "prepend_rebindings 0x30000 0x30100 (tl ex_registry) [ex_close_C, ex_open_B]
      ex_process = (0, ex_registry, malloc 0x30100 (malloc 0x30000 ex_process))"
    by (simp add: prepend_rebindings_def Let_def ex_registry_def)
  have fb: "find (\<lambda>r. name_matches ?S (name r)) [ex_close_C, ex_open_B] = Some ex_open_B"
    by (simp add: spec_defs ex_defs header_consts)
  have fo: "first_match ?S (tl ex_registry) = Some ex_open_A"
    by (simp add: spec_defs ex_defs header_consts)
  from first_match_wins [OF sym fm, where slide = "0x100000" and p = ex_process and p' = p'
      and q = ex_process and q' = q' and new_entry = "0x30000" and new_vec = "0x30100"
      and older = "tl ex_registry" and batch = "[ex_close_C, ex_open_B]" and qa = ex_process
      and qb = "malloc 0x30100 (malloc 0x30000 ex_process)"] p' q' n free pre
  have "p' = rewrite_binding ex_open_B (binding_ptr ex_la 0x100000 0) ex_process"
    and "mem q' (binding_ptr ex_la 0x100000 0) = replacement ex_open_B"
    by simp_all
  with sym fm p' q' n free pre fb fo show ?thesis by blast
qed



text \<open>
  C4. The test the code makes between a slot's symbol name \<open>S\<close> (the bytes of the string
  table from the symbol's offset on) and a registered name holds exactly when the first and
  the second byte of \<open>S\<close> are not zero and the C string that starts at the second byte of
  \<open>S\<close> is the registered name. A registered \<^verbatim>\<open>foo\<close> matches a stored \<^verbatim>\<open>_foo\<close>, and the
  empty registered name matches no slot.
\<close>

theorem name_discipline:
  "((\<exists>l. symbol_name_longer_than_1 S = Some l \<and> name_test l S r = Some True)
      \<longleftrightarrow> name_matches S (name r)) \<and>
   (name_matches S N \<longleftrightarrow>
      (\<exists>c0 c1 rest. S = c0 # c1 # rest \<and> c0 \<noteq> nul \<and> c1 \<noteq> nul \<and>
         c_string (c1 # rest) = Some (takeWhile (\<lambda>c. c \<noteq> nul) N))) \<and>
   (\<exists>l. symbol_name_longer_than_1 (''_foo'' @ nul # rest') = Some l \<and>
        name_test l (''_foo'' @ nul # rest') (r\<lparr>name := ''foo''\<rparr>) = Some True) \<and>
   (\<forall>S'. \<not> (\<exists>l. symbol_name_longer_than_1 S' = Some l \<and>
        name_test l S' (r\<lparr>name := []\<rparr>) = Some True))"
proof (intro conjI)
  show a: "(\<exists>l. symbol_name_longer_than_1 S = Some l \<and> name_test l S r = Some True)
      \<longleftrightarrow> name_matches S (name r)" for S r
    using name_test_matches [of S _ r] name_matches_longer [of S "name r"] by blast
  show b: "name_matches S N \<longleftrightarrow>
      (\<exists>c0 c1 rest. S = c0 # c1 # rest \<and> c0 \<noteq> nul \<and> c1 \<noteq> nul \<and>
         c_string (c1 # rest) = Some (takeWhile (\<lambda>c. c \<noteq> nul) N))" for S N
    by (rule name_matches_explicit)
  have "name_matches (''_foo'' @ nul # rest') (name (r\<lparr>name := ''foo''\<rparr>))"
    by (simp add: name_matches_explicit c_string_def nul_def)
  with a show "\<exists>l. symbol_name_longer_than_1 (''_foo'' @ nul # rest') = Some l \<and>
        name_test l (''_foo'' @ nul # rest') (r\<lparr>name := ''foo''\<rparr>) = Some True"
    by blast
  have "\<not> name_matches S' (name (r\<lparr>name := []\<rparr>))" for S'
    by (auto simp add: name_matches_explicit c_string_def)
  with a show "\<forall>S'. \<not> (\<exists>l. symbol_name_longer_than_1 S' = Some l \<and>
        name_test l S' (r\<lparr>name := []\<rparr>) = Some True)"
    by blast
qed

text \<open>
  C5, amended. The walk of an image that the dynamic resolver names and whose tables are
  all there is the section rewriter applied to the sections of the segment commands
  named \<^verbatim>\<open>__DATA\<close> or \<^verbatim>\<open>__DATA_CONST\<close> whose type is \<^verbatim>\<open>S_LAZY_SYMBOL_POINTERS\<close> or
  \<^verbatim>\<open>S_NON_LAZY_SYMBOL_POINTERS\<close>, once each and in the order of the load commands, and
  to no other section (the second pass does so on every list of load commands); any other
  walk changes nothing. The walk returns on a readable image with a bounded registry.
  The contents of every other section are as they were before the walk, except for the
  cells a registered \<^verbatim>\<open>replaced\<close> pointer refers to: these receive the captured
  bindings (line 151) wherever they lie.
\<close>

theorem section_selectivity:
  "rebind_symbols_for_image registry header slide p =
     (if \<not> dladdr p header then Some p
      else case linkedit_tables p header slide of
             None \<Rightarrow> Some p
           | Some (symtab, strtab, ind) \<Rightarrow>
               rewrite_sections registry (scanned_sections (load_commands p header)) slide
                 symtab strtab ind p) \<and>
   commands_for registry cmds slide symtab strtab ind p =
     rewrite_sections registry (scanned_sections cmds) slide symtab strtab ind p \<and>
   (image_readable p header slide \<and> registry_bounded registry \<longrightarrow>
      (\<exists>p'. rebind_symbols_for_image registry header slide p = Some p')) \<and>
   (rebind_symbols_for_image registry header slide p = Some p' \<and>
    a \<notin> replaced_targets registry \<and>
    (\<forall>sect\<in>set (scanned_sections (load_commands p header)). \<not> in_section sect slide a) \<longrightarrow>
      mem p' a = mem p a)"
proof (intro conjI impI)
  show "rebind_symbols_for_image registry header slide p =
     (if \<not> dladdr p header then Some p
      else case linkedit_tables p header slide of
             None \<Rightarrow> Some p
           | Some (symtab, strtab, ind) \<Rightarrow>
               rewrite_sections registry (scanned_sections (load_commands p header)) slide
                 symtab strtab ind p)"
    by (rule rebind_symbols_for_image_eq)
  show "commands_for registry cmds slide symtab strtab ind p =
     rewrite_sections registry (scanned_sections cmds) slide symtab strtab ind p"
    by (rule commands_for_rewrite_sections)
  show "\<exists>p'. rebind_symbols_for_image registry header slide p = Some p'"
    if "image_readable p header slide \<and> registry_bounded registry"
    using that rebind_symbols_for_image_returns by blast
  assume h: "rebind_symbols_for_image registry header slide p = Some p' \<and>
    a \<notin> replaced_targets registry \<and>
    (\<forall>sect\<in>set (scanned_sections (load_commands p header)). \<not> in_section sect slide a)"
  from rebind_symbols_for_image_cases [of registry header slide p] h
  consider "p' = p"
    | symtab strtab ind where
      "commands_for registry (load_commands p header) slide symtab strtab ind p = Some p'"
    by auto
  then show "mem p' a = mem p a"
  proof cases
    case 1
    then show ?thesis by simp
  next
    case 2
    then have "rewrite_sections registry (scanned_sections (load_commands p header)) slide
        symtab strtab ind p = Some p'"
      by (simp add: commands_for_rewrite_sections)
    then show ?thesis using h by (intro rewrite_sections_mem_other) auto
  qed
qed

theorem section_selectivity_witness:
  "dladdr ex_process 0x100000 \<and>
   linkedit_tables ex_process 0x100000 0x100000 = Some (ex_symtab, ex_strtab, ex_indirect) \<and>
   scanned_sections (load_commands ex_process 0x100000) = [ex_got, ex_la] \<and>
   image_readable ex_process 0x100000 0x100000 \<and> registry_bounded ex_registry \<and>
   (\<exists>p'. rebind_symbols_for_image ex_registry 0x100000 0x100000 ex_process = Some p' \<and>
      rebind_symbols_for_image ex_registry 0x100000 0x100000 ex_process =
        rewrite_sections ex_registry [ex_got, ex_la] 0x100000 ex_symtab ex_strtab ex_indirect
          ex_process \<and>
      mem p' 0x108010 = mem ex_process 0x108010 \<and>
      mem p' 0x101000 = mem ex_process 0x101000 \<and>
      mem p' 0x104000 \<noteq> mem ex_process 0x104000 \<and>
      mem p' 0x108000 \<noteq> mem ex_process 0x108000)"
proof -
  have dl: "dladdr ex_process 0x100000" by (simp add: ex_process_def)
  have cmds: "load_commands ex_process 0x100000 = ex_cmds" by (simp add: ex_process_def)
  have sc: "scanned_sections (load_commands ex_process 0x100000) = [ex_got, ex_la]"
    by (simp add: cmds ex_scanned)
  note inst = section_selectivity [where registry = ex_registry and header = "0x100000"
      and slide = "0x100000" and p = ex_process and cmds = ex_cmds
      and symtab = ex_symtab and strtab = ex_strtab and ind = ex_indirect]
  from inst [THEN conjunct1] dl ex_tables sc
  have e: "rebind_symbols_for_image ex_registry 0x100000 0x100000 ex_process =
      rewrite_sections ex_registry [ex_got, ex_la] 0x100000 ex_symtab ex_strtab ex_indirect
        ex_process"
    by simp
  from inst [THEN conjunct2, THEN conjunct2, THEN conjunct1] ex_image_readable
    ex_registry_bounded
  obtain p' where
    run: "rebind_symbols_for_image ex_registry 0x100000 0x100000 ex_process = Some p'"
    by blast
  from ex_walk run have w: "mem p' 0x104000 = 0xC00" "mem p' 0x108000 = 0xB00"
    by auto
  have t: "0x108010 \<notin> replaced_targets ex_registry" "0x101000 \<notin> replaced_targets ex_registry"
    by (simp_all add: replaced_targets_def ex_defs)
  have o1: "\<forall>sect\<in>set (scanned_sections (load_commands ex_process 0x100000)).
      \<not> in_section sect 0x100000 0x108010"
    by (simp add: sc) (simp add: in_section_def ex_defs)
  have o2: "\<forall>sect\<in>set (scanned_sections (load_commands ex_process 0x100000)).
      \<not> in_section sect 0x100000 0x101000"
    by (simp add: sc) (simp add: in_section_def ex_defs)
  from inst [where p' = p' and a = "0x108010", THEN conjunct2, THEN conjunct2, THEN conjunct2]
    run t(1) o1
  have a1: "mem p' 0x108010 = mem ex_process 0x108010" by blast
  from inst [where p' = p' and a = "0x101000", THEN conjunct2, THEN conjunct2, THEN conjunct2]
    run t(2) o2
  have a2: "mem p' 0x101000 = mem ex_process 0x101000" by blast
  from w have c: "mem p' 0x104000 \<noteq> mem ex_process 0x104000"
      "mem p' 0x108000 \<noteq> mem ex_process 0x108000"
    by (simp_all add: ex_process_def)
  have s: "\<exists>p'. rebind_symbols_for_image ex_registry 0x100000 0x100000 ex_process = Some p' \<and>
      rebind_symbols_for_image ex_registry 0x100000 0x100000 ex_process =
        rewrite_sections ex_registry [ex_got, ex_la] 0x100000 ex_symtab ex_strtab ex_indirect
          ex_process \<and>
      mem p' 0x108010 = mem ex_process 0x108010 \<and>
      mem p' 0x101000 = mem ex_process 0x101000 \<and>
      mem p' 0x104000 \<noteq> mem ex_process 0x104000 \<and>
      mem p' 0x108000 \<noteq> mem ex_process 0x108000"
    using run e a1 a2 c by (intro exI conjI)
  from dl ex_tables sc ex_image_readable ex_registry_bounded s show ?thesis by (intro conjI)
qed

text \<open>
  C5 without the exception fails. In the small image the variable at \<open>0x108010\<close> lies
  in the \<^verbatim>\<open>__data\<close> section, which is not a section of symbol pointers and is not handed
  to the rewriter; a rebinding of \<^verbatim>\<open>open\<close> whose \<^verbatim>\<open>replaced\<close> pointer is its address
  makes the walk store the old binding of the \<^verbatim>\<open>open\<close> slot there.
\<close>

theorem section_selectivity_counterexample:
  "scanned_sections ex_cmds = [ex_got, ex_la] \<and>
   in_section ex_data 0x100000 0x108010 \<and>
   \<not> in_section ex_got 0x100000 0x108010 \<and>
   \<not> in_section ex_la 0x100000 0x108010 \<and>
   mem ex_process 0x108010 = 0x108011 \<and>
   cell_after (rebind_symbols_for_image ex_registry_D 0x100000 0x100000 ex_process) 0x108010
     = Some 0x108001"
proof -
  have sc: "scanned_sections ex_cmds = [ex_got, ex_la]"
    by (simp add: pointer_section_def ex_defs header_consts)
  have s: "in_section ex_data 0x100000 0x108010" "\<not> in_section ex_got 0x100000 0x108010"
      "\<not> in_section ex_la 0x100000 0x108010"
    by (simp_all add: in_section_def ex_defs)
  have m: "mem ex_process 0x108010 = 0x108011" by (simp add: ex_process_def)
  have r: "cell_after (rebind_symbols_for_image ex_registry_D 0x100000 0x100000 ex_process)
      0x108010 = Some 0x108001"
    by (simp add: cell_after_def rebind_symbols_for_image_def model_defs ex_defs header_consts)
  from sc s m r show ?thesis by simp
qed

text \<open>
  C7. The walker returns at once and leaves the process as it is when \<^verbatim>\<open>dladdr\<close> fails
  on the header, when the load commands hold no \<^verbatim>\<open>__LINKEDIT\<close> segment command, no
  symtab command or no dynamic symtab command, and when the dynamic symtab command (the
  last one, if there are several) has no indirect symbols.
\<close>

theorem incomplete_image_skipped:
  assumes "\<not> dladdr p header \<or>
           linkedit_segments (load_commands p header) = [] \<or>
           symtab_commands (load_commands p header) = [] \<or>
           dysymtab_commands (load_commands p header) = [] \<or>
           nindirectsyms (last (dysymtab_commands (load_commands p header))) = 0"
  shows "rebind_symbols_for_image registry header slide p = Some p"
proof (cases "dladdr p header")
  case False
  then show ?thesis by (simp add: rebind_symbols_for_image_def)
next
  case True
  with assms show ?thesis
    by (auto simp add: rebind_symbols_for_image_def find_commands_eq last_option_def Let_def
        split: option.splits)
qed

theorem incomplete_image_skipped_witness:
  "\<not> dladdr ex_process 0x200000 \<and>
   rebind_symbols_for_image ex_registry 0x200000 0 ex_process = Some ex_process \<and>
   dladdr (ex_with (take 3 ex_cmds @ drop 4 ex_cmds)) 0x100000 \<and>
   linkedit_segments (load_commands (ex_with (take 3 ex_cmds @ drop 4 ex_cmds)) 0x100000) = [] \<and>
   rebind_symbols_for_image ex_registry 0x100000 0x100000
     (ex_with (take 3 ex_cmds @ drop 4 ex_cmds)) = Some (ex_with (take 3 ex_cmds @ drop 4 ex_cmds)) \<and>
   symtab_commands (load_commands (ex_with (take 4 ex_cmds @ drop 5 ex_cmds)) 0x100000) = [] \<and>
   rebind_symbols_for_image ex_registry 0x100000 0x100000
     (ex_with (take 4 ex_cmds @ drop 5 ex_cmds)) = Some (ex_with (take 4 ex_cmds @ drop 5 ex_cmds)) \<and>
   dysymtab_commands (load_commands (ex_with (take 5 ex_cmds)) 0x100000) = [] \<and>
   rebind_symbols_for_image ex_registry 0x100000 0x100000
     (ex_with (take 5 ex_cmds)) = Some (ex_with (take 5 ex_cmds)) \<and>
   nindirectsyms (last (dysymtab_commands (load_commands
     (ex_with (take 5 ex_cmds @ [LC_DYSYMTAB \<lparr>indirectsymoff = 0xC200, nindirectsyms = 0\<rparr>]))
     0x100000))) = 0 \<and>
   rebind_symbols_for_image ex_registry 0x100000 0x100000
     (ex_with (take 5 ex_cmds @ [LC_DYSYMTAB \<lparr>indirectsymoff = 0xC200, nindirectsyms = 0\<rparr>]))
     = Some (ex_with (take 5 ex_cmds @ [LC_DYSYMTAB \<lparr>indirectsymoff = 0xC200, nindirectsyms = 0\<rparr>]))"
proof -
  let ?z = "take 5 ex_cmds @ [LC_DYSYMTAB \<lparr>indirectsymoff = 0xC200, nindirectsyms = 0\<rparr>]"
  have d: "\<not> dladdr ex_process 0x200000" by (simp add: ex_process_def)
  have d': "dladdr (ex_with (take 3 ex_cmds @ drop 4 ex_cmds)) 0x100000"
    by (simp add: ex_with_def ex_process_def)
  have l: "linkedit_segments (load_commands (ex_with (take 3 ex_cmds @ drop 4 ex_cmds)) 0x100000) = []"
    by (simp add: ex_with_def ex_cmds_def header_consts)
  have s: "symtab_commands (load_commands (ex_with (take 4 ex_cmds @ drop 5 ex_cmds)) 0x100000) = []"
    by (simp add: ex_with_def ex_cmds_def)
  have y: "dysymtab_commands (load_commands (ex_with (take 5 ex_cmds)) 0x100000) = []"
    by (simp add: ex_with_def ex_cmds_def)
  have z: "nindirectsyms (last (dysymtab_commands (load_commands (ex_with ?z) 0x100000))) = 0"
    by (simp add: ex_with_def ex_cmds_def)
  from d have "rebind_symbols_for_image ex_registry 0x200000 0 ex_process = Some ex_process"
    by (intro incomplete_image_skipped) simp
  moreover from l have "rebind_symbols_for_image ex_registry 0x100000 0x100000
     (ex_with (take 3 ex_cmds @ drop 4 ex_cmds)) = Some (ex_with (take 3 ex_cmds @ drop 4 ex_cmds))"
    by (intro incomplete_image_skipped) simp
  moreover from s have "rebind_symbols_for_image ex_registry 0x100000 0x100000
     (ex_with (take 4 ex_cmds @ drop 5 ex_cmds)) = Some (ex_with (take 4 ex_cmds @ drop 5 ex_cmds))"
    by (intro incomplete_image_skipped) simp
  moreover from y have "rebind_symbols_for_image ex_registry 0x100000 0x100000
     (ex_with (take 5 ex_cmds)) = Some (ex_with (take 5 ex_cmds))"
    by (intro incomplete_image_skipped) simp
  moreover from z have "rebind_symbols_for_image ex_registry 0x100000 0x100000 (ex_with ?z)
     = Some (ex_with ?z)"
    by (intro incomplete_image_skipped) simp
  ultimately show ?thesis using d d' l s y z by blast
qed

text \<open>
  C6. \<^verbatim>\<open>rebind_symbols\<close> returns \<open>-1\<close> when the allocation of the node or of the copied
  vector fails, and then nothing but the allocator's bookkeeping has changed: the global
  head, the cells, the protections and the loader's callbacks are as before, and no
  image was walked. When both allocations succeed it walks the images with the new
  node at the head of the global registry and returns 0: it does return when the images
  are readable and the batches bounded. The return value is negative exactly when an
  allocation failed.
\<close>

theorem rebind_symbols_result:
  "(new_entry = 0 \<or> new_vec = 0 \<longrightarrow>
      (\<exists>al. rebind_symbols new_entry new_vec batch p = Some (- 1, p\<lparr>allocated := al\<rparr>))) \<and>
   (new_entry \<noteq> 0 \<and> new_vec \<noteq> 0 \<longrightarrow>
      rebind_symbols new_entry new_vec batch p =
        map_option (Pair 0)
          (let p2 = (malloc new_vec (malloc new_entry p))
                 \<lparr>rebindings_head :=
                    \<lparr>entry_ptr = new_entry, rebindings_ptr = new_vec, rebindings = batch\<rparr>
                      # rebindings_head p\<rparr>
           in if rebindings_head p = [] then dyld_register_func_for_add_image p2
              else images_for (dyld_images p2) p2)) \<and>
   (rebind_symbols new_entry new_vec batch p = Some (retval, p') \<longrightarrow>
      (retval < 0 \<longleftrightarrow> new_entry = 0 \<or> new_vec = 0) \<and>
      (retval = 0 \<longleftrightarrow> new_entry \<noteq> 0 \<and> new_vec \<noteq> 0) \<and>
      rebindings_head p' =
        (if new_entry = 0 \<or> new_vec = 0 then rebindings_head p
         else \<lparr>entry_ptr = new_entry, rebindings_ptr = new_vec, rebindings = batch\<rparr>
                # rebindings_head p)) \<and>
   (new_entry \<noteq> 0 \<and> new_vec \<noteq> 0 \<and> length batch < 2 ^ 32 \<and>
    registry_bounded (rebindings_head p) \<and>
    list_all (\<lambda>(header, slide). image_readable p header slide) (dyld_images p) \<longrightarrow>
      (\<exists>p'. rebind_symbols new_entry new_vec batch p = Some (0, p')))"
proof -
  have fail: "\<exists>al. rebind_symbols new_entry new_vec batch p = Some (- 1, p\<lparr>allocated := al\<rparr>)"
    if "new_entry = 0 \<or> new_vec = 0"
  proof (cases "new_entry = 0")
    case True
    then have "rebind_symbols new_entry new_vec batch p = Some (- 1, p\<lparr>allocated := allocated p\<rparr>)"
      by (simp add: rebind_symbols_def prepend_rebindings_eq)
    then show ?thesis by blast
  next
    case False
    with that have v: "new_vec = 0" by simp
    from malloc_free_only_allocated obtain al where
      "free new_entry (malloc new_entry p) = p\<lparr>allocated := al\<rparr>" by blast
    with False v have "rebind_symbols new_entry new_vec batch p = Some (- 1, p\<lparr>allocated := al\<rparr>)"
      by (simp add: rebind_symbols_def prepend_rebindings_eq)
    then show ?thesis by blast
  qed
  let ?node = "\<lparr>entry_ptr = new_entry, rebindings_ptr = new_vec, rebindings = batch\<rparr>"
  let ?p2 = "(malloc new_vec (malloc new_entry p))\<lparr>rebindings_head := ?node # rebindings_head p\<rparr>"
  have mh: "rebindings_head (malloc new_vec (malloc new_entry p)) = rebindings_head p"
    by (simp add: malloc_def)
  have ok: "rebind_symbols new_entry new_vec batch p =
      map_option (Pair 0)
        (let p2 = ?p2
         in if rebindings_head p = [] then dyld_register_func_for_add_image p2
            else images_for (dyld_images p2) p2)"
    if "new_entry \<noteq> 0 \<and> new_vec \<noteq> 0"
    using that by (simp add: rebind_symbols_def prepend_rebindings_eq Let_def mh split: option.splits)
  have head: "rebindings_head p' = ?node # rebindings_head p"
    if s: "new_entry \<noteq> 0 \<and> new_vec \<noteq> 0"
      and r: "rebind_symbols new_entry new_vec batch p = Some (retval, p')"
  proof -
    from r [unfolded ok [OF s]] have w: "(if rebindings_head p = []
            then dyld_register_func_for_add_image ?p2
            else images_for (dyld_images ?p2) ?p2) = Some p'"
      by (auto simp add: Let_def)
    have "\<exists>m pr. p' = (?p2\<lparr>add_image_funcs := add_image_funcs p'\<rparr>)\<lparr>mem := m, protection := pr\<rparr>"
    proof (cases "rebindings_head p = []")
      case True
      with w have "images_for (dyld_images ?p2) (?p2\<lparr>add_image_funcs := Suc (add_image_funcs ?p2)\<rparr>)
          = Some p'"
        by (simp add: dyld_register_func_for_add_image_def)
      from images_for_only_mem_protection [OF this] obtain m pr where
        e: "p' = (?p2\<lparr>add_image_funcs := Suc (add_image_funcs ?p2)\<rparr>)\<lparr>mem := m, protection := pr\<rparr>"
        by blast
      then have "add_image_funcs p' = Suc (add_image_funcs ?p2)" by simp
      with e show ?thesis by auto
    next
      case False
      with w have "images_for (dyld_images ?p2) ?p2 = Some p'" by simp
      from images_for_only_mem_protection [OF this] obtain m pr where
        e: "p' = ?p2\<lparr>mem := m, protection := pr\<rparr>" by blast
      then have "add_image_funcs p' = add_image_funcs ?p2" by simp
      with e show ?thesis by auto
    qed
    then obtain m pr where
      "p' = (?p2\<lparr>add_image_funcs := add_image_funcs p'\<rparr>)\<lparr>mem := m, protection := pr\<rparr>" by blast
    then have "rebindings_head p' = rebindings_head ?p2"
      by (metis process.select_convs(4) process.surjective process.update_convs(1,2,5))
    then show ?thesis by simp
  qed
  show ?thesis
  proof (intro conjI impI)
    show "\<exists>p'. rebind_symbols new_entry new_vec batch p = Some (0, p')"
      if "new_entry \<noteq> 0 \<and> new_vec \<noteq> 0 \<and> length batch < 2 ^ 32 \<and>
        registry_bounded (rebindings_head p) \<and>
        list_all (\<lambda>(header, slide). image_readable p header slide) (dyld_images p)"
      using that by (rule rebind_symbols_returns)
    show "\<exists>al. rebind_symbols new_entry new_vec batch p = Some (- 1, p\<lparr>allocated := al\<rparr>)"
      if "new_entry = 0 \<or> new_vec = 0" using that by (rule fail)
    show "rebind_symbols new_entry new_vec batch p =
      map_option (Pair 0)
        (let p2 = ?p2
         in if rebindings_head p = [] then dyld_register_func_for_add_image p2
            else images_for (dyld_images p2) p2)"
      if "new_entry \<noteq> 0 \<and> new_vec \<noteq> 0" using that by (rule ok)
    assume r: "rebind_symbols new_entry new_vec batch p = Some (retval, p')"
    have rv: "retval = (if new_entry = 0 \<or> new_vec = 0 then - 1 else 0)"
    proof (cases "new_entry = 0 \<or> new_vec = 0")
      case True
      with fail r show ?thesis by auto
    next
      case False
      then have s: "new_entry \<noteq> 0 \<and> new_vec \<noteq> 0" by simp
      from r [unfolded ok [OF s]] have "retval = 0" by auto
      with False show ?thesis by simp
    qed
    show "(retval < 0) = (new_entry = 0 \<or> new_vec = 0)"
      using rv by simp
    show "(retval = 0) = (new_entry \<noteq> 0 \<and> new_vec \<noteq> 0)"
      using rv by simp
    show "rebindings_head p' =
        (if new_entry = 0 \<or> new_vec = 0 then rebindings_head p
         else ?node # rebindings_head p)"
    proof (cases "new_entry = 0 \<or> new_vec = 0")
      case True
      with fail r show ?thesis by auto
    next
      case False
      with head r show ?thesis by simp
    qed
  qed
qed

theorem rebind_symbols_result_witness:
  "(\<exists>al. rebind_symbols 0 0x30100 [ex_close_C, ex_open_B] ex_process
      = Some (- 1, ex_process\<lparr>allocated := al\<rparr>)) \<and>
   (\<exists>al. rebind_symbols 0x30000 0 [ex_close_C, ex_open_B] ex_process
      = Some (- 1, ex_process\<lparr>allocated := al\<rparr>)) \<and>
   (\<exists>p'. rebind_symbols 0x30000 0x30100 [ex_close_C, ex_open_B] ex_process = Some (0, p') \<and>
      rebindings_head p' = [hd ex_registry] \<and> mem p' 0x108000 = 0xB00) \<and>
   (\<exists>p'. rebind_symbols 0x30000 0x30100 [ex_close_C, ex_open_B]
       (ex_process\<lparr>rebindings_head := tl ex_registry\<rparr>) = Some (0, p') \<and>
      rebindings_head p' = ex_registry \<and> mem p' 0x108000 = 0xB00)"
proof -
  let ?B = "[ex_close_C, ex_open_B]"
  let ?P = "ex_process\<lparr>rebindings_head := tl ex_registry\<rparr>"
  have a: "\<exists>al. rebind_symbols 0 0x30100 ?B ex_process = Some (- 1, ex_process\<lparr>allocated := al\<rparr>)"
    using rebind_symbols_result [where batch = ?B and new_entry = 0 and new_vec = "0x30100"
        and p = ex_process, THEN conjunct1]
    by simp
  have b: "\<exists>al. rebind_symbols 0x30000 0 ?B ex_process = Some (- 1, ex_process\<lparr>allocated := al\<rparr>)"
    using rebind_symbols_result [where batch = ?B and new_entry = "0x30000" and new_vec = 0
        and p = ex_process, THEN conjunct1]
    by simp
  have im: "list_all (\<lambda>(header, slide). image_readable ex_process header slide)
      (dyld_images ex_process)"
    using ex_image_readable by (simp add: ex_process_def)
  have rb: "registry_bounded (rebindings_head ex_process)"
    by (simp add: registry_bounded_def ex_process_def)
  have "\<exists>p'. rebind_symbols 0x30000 0x30100 ?B ex_process = Some (0, p')"
    using rebind_symbols_result [where batch = ?B and new_entry = "0x30000"
        and new_vec = "0x30100" and p = ex_process,
        THEN conjunct2, THEN conjunct2, THEN conjunct2] im rb
    by simp
  then obtain p1 where r1: "rebind_symbols 0x30000 0x30100 ?B ex_process = Some (0, p1)"
    by (rule exE)
  from ex_first_registration r1 have m1: "mem p1 0x108000 = 0xB00" by auto
  have h1: "rebindings_head p1 = [hd ex_registry]"
    using rebind_symbols_result [where batch = ?B and new_entry = "0x30000"
        and new_vec = "0x30100" and p = ex_process and retval = 0 and p' = p1,
        THEN conjunct2, THEN conjunct2, THEN conjunct1] r1
    by (simp add: ex_registry_def ex_process_def)
  from ex_second_registration obtain p2 where
    r2: "rebind_symbols 0x30000 0x30100 ?B ?P = Some (0, p2)"
    and m2: "mem p2 0x108000 = 0xB00" by (elim exE conjE)
  have h2: "rebindings_head p2 = ex_registry"
    using rebind_symbols_result [where batch = ?B and new_entry = "0x30000"
        and new_vec = "0x30100" and p = ?P and retval = 0 and p' = p2,
        THEN conjunct2, THEN conjunct2, THEN conjunct1] r2
    by (simp add: ex_registry_def)
  from r1 h1 m1 have c: "\<exists>p'. rebind_symbols 0x30000 0x30100 ?B ex_process = Some (0, p') \<and>
      rebindings_head p' = [hd ex_registry] \<and> mem p' 0x108000 = 0xB00" by (intro exI conjI)
  from r2 h2 m2 have d: "\<exists>p'. rebind_symbols 0x30000 0x30100 ?B ?P = Some (0, p') \<and>
      rebindings_head p' = ex_registry \<and> mem p' 0x108000 = 0xB00" by (intro exI conjI)
  from a b c d show ?thesis by (intro conjI)
qed

text \<open>
  C8. After the section rewriter has processed a section whose segment name is
  \<^verbatim>\<open>__DATA_CONST\<close>, every address of the section has the protection that was read before
  the rewrite, with the read, write and execute bits of the kernel value turned into the
  bits of \<^verbatim>\<open>mprotect\<close> and no other bit. The value read is the one \<^verbatim>\<open>vm_region\<close>
  reports at the address of the registry's head node, and \<^verbatim>\<open>VM_PROT_READ\<close> when that
  call fails. The rewriter returns on every readable section with a bounded registry.
\<close>

theorem protection_restored:
  assumes "segname sect = SEG_DATA_CONST"
    and "in_section sect slide a"
    and "observed = (case protection p (head_ptr registry) of
                       Some v \<Rightarrow> v
                     | None \<Rightarrow> VM_PROT_READ)"
  shows "(perform_rebinding_with_section registry sect slide symtab strtab ind p = Some p' \<longrightarrow>
            protection p' a = Some (prot_of_vm_prot observed)) \<and>
         (section_readable sect symtab strtab ind \<and> registry_bounded registry \<longrightarrow>
            (\<exists>p'. perform_rebinding_with_section registry sect slide symtab strtab ind p
               = Some p')) \<and>
         (prot_of_vm_prot observed AND PROT_READ \<noteq> 0 \<longleftrightarrow> observed AND VM_PROT_READ \<noteq> 0) \<and>
         (prot_of_vm_prot observed AND PROT_WRITE \<noteq> 0 \<longleftrightarrow> observed AND VM_PROT_WRITE \<noteq> 0) \<and>
         (prot_of_vm_prot observed AND PROT_EXEC \<noteq> 0 \<longleftrightarrow> observed AND VM_PROT_EXECUTE \<noteq> 0) \<and>
         prot_of_vm_prot observed AND NOT (PROT_READ OR PROT_WRITE OR PROT_EXEC) = 0"
proof -
  have restored: "protection p' a = Some (prot_of_vm_prot observed)"
    if run: "perform_rebinding_with_section registry sect slide symtab strtab ind p = Some p'"
  proof -
    from perform_rebinding_with_section_result [OF run] assms(1) obtain left p2 where
      p': "p' = mprotect (slide + addr sect) (size_s sect)
                   (prot_of_vm_prot (get_protection p (head_ptr registry))) p2"
      by auto
    have "get_protection p (head_ptr registry) = observed"
      by (simp add: get_protection_def assms(3))
    with p' assms(2) show ?thesis by (simp add: mprotect_def in_section_def)
  qed
  have returns: "\<exists>p'. perform_rebinding_with_section registry sect slide symtab strtab ind p
      = Some p'"
    if "section_readable sect symtab strtab ind \<and> registry_bounded registry"
    using that perform_rebinding_with_section_returns by blast
  from restored returns prot_of_vm_prot_bits [of observed] show ?thesis by blast
qed

theorem protection_restored_witness:
  "segname ex_got = SEG_DATA_CONST \<and>
   in_section ex_got 0x100000 0x104008 \<and>
   protection ex_process (head_ptr ex_registry) = Some (VM_PROT_READ OR VM_PROT_WRITE) \<and>
   protection ex_process 0x104008 = Some VM_PROT_READ \<and>
   (\<exists>p'. perform_rebinding_with_section ex_registry ex_got 0x100000 ex_symtab ex_strtab
       ex_indirect ex_process = Some p' \<and>
      protection p' 0x104008 = Some (PROT_READ OR PROT_WRITE))"
proof -
  have s: "segname ex_got = SEG_DATA_CONST" by (simp add: ex_got_def SEG_DATA_CONST_def)
  have i: "in_section ex_got 0x100000 0x104008" by (simp add: in_section_def ex_got_def)
  have o: "protection ex_process (head_ptr ex_registry) = Some (VM_PROT_READ OR VM_PROT_WRITE)"
    by (simp add: ex_defs header_consts)
  have b: "protection ex_process 0x104008 = Some VM_PROT_READ"
    by (simp add: ex_defs header_consts)
  have ob: "VM_PROT_READ OR VM_PROT_WRITE =
      (case protection ex_process (head_ptr ex_registry) of Some v \<Rightarrow> v | None \<Rightarrow> VM_PROT_READ)"
    by (simp add: o)
  note inst = protection_restored [OF s i ob, where symtab = ex_symtab and strtab = ex_strtab
      and ind = ex_indirect]
  from inst [THEN conjunct2, THEN conjunct1] ex_got_readable ex_registry_bounded
  obtain p' where
    run: "perform_rebinding_with_section ex_registry ex_got 0x100000 ex_symtab ex_strtab
       ex_indirect ex_process = Some p'" by blast
  from inst [where p' = p', THEN conjunct1] run
  have "protection p' 0x104008 = Some (prot_of_vm_prot (VM_PROT_READ OR VM_PROT_WRITE))"
    by simp
  then have pr: "protection p' 0x104008 = Some (PROT_READ OR PROT_WRITE)"
    by (simp add: prot_of_vm_prot_def header_consts)
  from run pr have "\<exists>p'. perform_rebinding_with_section ex_registry ex_got 0x100000 ex_symtab
      ex_strtab ex_indirect ex_process = Some p' \<and>
      protection p' 0x104008 = Some (PROT_READ OR PROT_WRITE)"
    by (intro exI conjI)
  with s i o b show ?thesis by (intro conjI)
qed

text \<open>
  C9. \<^verbatim>\<open>rebind_symbols_image\<close> walks the given image, and no other, with a registry of
  one node that holds the copied batch; the node is not linked into the global list, and
  the node and its vector are freed before the return. When the call returns, the global
  head, the loader's callbacks and its image list are as before: only cells, protections
  and the allocator's bookkeeping can differ, and neither block is live. The call returns
  0 when the allocations succeed, the image is readable and the batch is bounded.
\<close>

theorem register_local_is_transient:
  "(new_entry \<noteq> 0 \<and> new_vec \<noteq> 0 \<longrightarrow>
      rebind_symbols_image new_entry new_vec header slide batch p =
        map_option (\<lambda>p2. (0, free new_entry (free new_vec p2)))
          (rebind_symbols_for_image
             [\<lparr>entry_ptr = new_entry, rebindings_ptr = new_vec, rebindings = batch\<rparr>]
             header slide (malloc new_vec (malloc new_entry p)))) \<and>
   (rebind_symbols_image new_entry new_vec header slide batch p = Some (retval, p') \<longrightarrow>
      (\<exists>m pr al. p' = p\<lparr>mem := m, protection := pr, allocated := al\<rparr>) \<and>
      rebindings_head p' = rebindings_head p \<and>
      add_image_funcs p' = add_image_funcs p \<and>
      dyld_images p' = dyld_images p \<and>
      allocated p' =
        (if new_entry = 0 then allocated p
         else if new_vec = 0 then allocated p - {new_entry}
         else allocated p - {new_entry, new_vec})) \<and>
   (new_entry \<noteq> 0 \<and> new_vec \<noteq> 0 \<and> length batch < 2 ^ 32 \<and>
    image_readable p header slide \<longrightarrow>
      (\<exists>p'. rebind_symbols_image new_entry new_vec header slide batch p = Some (0, p')))"
proof (intro conjI impI)
  show "\<exists>p'. rebind_symbols_image new_entry new_vec header slide batch p = Some (0, p')"
    if "new_entry \<noteq> 0 \<and> new_vec \<noteq> 0 \<and> length batch < 2 ^ 32 \<and>
      image_readable p header slide"
    using that by (rule rebind_symbols_image_returns)
  show "rebind_symbols_image new_entry new_vec header slide batch p =
        map_option (\<lambda>p2. (0, free new_entry (free new_vec p2)))
          (rebind_symbols_for_image
             [\<lparr>entry_ptr = new_entry, rebindings_ptr = new_vec, rebindings = batch\<rparr>]
             header slide (malloc new_vec (malloc new_entry p)))"
    if "new_entry \<noteq> 0 \<and> new_vec \<noteq> 0"
    using that by (simp add: rebind_symbols_image_eq)
  assume r: "rebind_symbols_image new_entry new_vec header slide batch p = Some (retval, p')"
  have "\<exists>m pr. p' = p\<lparr>mem := m, protection := pr,
      allocated := (if new_entry = 0 then allocated p
         else if new_vec = 0 then allocated p - {new_entry}
         else allocated p - {new_entry, new_vec})\<rparr>"
  proof (cases "new_entry = 0")
    case True
    with r obtain p2 where w: "rebind_symbols_for_image [] header slide p = Some p2"
      and e: "p' = p2"
      by (auto simp add: rebind_symbols_image_eq)
    from rebind_symbols_for_image_only_mem_protection [OF w] obtain m pr where
      "p2 = p\<lparr>mem := m, protection := pr\<rparr>" by blast
    with e True have "p' = p\<lparr>mem := m, protection := pr, allocated := allocated p\<rparr>" by simp
    with True show ?thesis by auto
  next
    case False
    show ?thesis
    proof (cases "new_vec = 0")
      case True
      let ?p1 = "free new_entry (malloc new_entry p)"
      from r False True obtain p2 where w: "rebind_symbols_for_image [] header slide ?p1 = Some p2"
        and e: "p' = p2"
        by (auto simp add: rebind_symbols_image_eq)
      from rebind_symbols_for_image_only_mem_protection [OF w] obtain m pr where
        "p2 = ?p1\<lparr>mem := m, protection := pr\<rparr>" by blast
      with e False have "p' = p\<lparr>mem := m, protection := pr, allocated := allocated p - {new_entry}\<rparr>"
        by (simp add: free_def malloc_def)
      with False True show ?thesis by auto
    next
      case nv: False
      let ?p1 = "malloc new_vec (malloc new_entry p)"
      let ?reg = "[\<lparr>entry_ptr = new_entry, rebindings_ptr = new_vec, rebindings = batch\<rparr>]"
      from r False nv obtain p2 where w: "rebind_symbols_for_image ?reg header slide ?p1 = Some p2"
        and e: "p' = free new_entry (free new_vec p2)"
        by (auto simp add: rebind_symbols_image_eq)
      from rebind_symbols_for_image_only_mem_protection [OF w] obtain m pr where
        "p2 = ?p1\<lparr>mem := m, protection := pr\<rparr>" by blast
      moreover have "insert new_entry (allocated p) - {new_vec} - {new_entry}
          = allocated p - {new_entry, new_vec}" by auto
      ultimately have "p' = p\<lparr>mem := m, protection := pr,
          allocated := allocated p - {new_entry, new_vec}\<rparr>"
        using e False nv by (simp add: free_def malloc_def)
      with False nv show ?thesis by auto
    qed
  qed
  then obtain m pr where e: "p' = p\<lparr>mem := m, protection := pr,
      allocated := (if new_entry = 0 then allocated p
         else if new_vec = 0 then allocated p - {new_entry}
         else allocated p - {new_entry, new_vec})\<rparr>" by blast
  then show "\<exists>m pr al. p' = p\<lparr>mem := m, protection := pr, allocated := al\<rparr>" by blast
  from e show "rebindings_head p' = rebindings_head p" by simp
  from e show "add_image_funcs p' = add_image_funcs p" by simp
  from e show "dyld_images p' = dyld_images p" by simp
  from e show "allocated p' =
        (if new_entry = 0 then allocated p
         else if new_vec = 0 then allocated p - {new_entry}
         else allocated p - {new_entry, new_vec})" by simp
qed

theorem register_local_is_transient_witness:
  "\<exists>p'. rebind_symbols_image 0x30000 0x30100 0x100000 0x100000 [ex_open_A] ex_process
       = Some (0, p') \<and>
     mem p' 0x108000 = 0xA00 \<and> mem p' 0x20000 = 0x108001 \<and>
     rebindings_head p' = [] \<and> add_image_funcs p' = 0 \<and>
     dyld_images p' = [(0x100000, 0x100000)] \<and> allocated p' = {}"
proof -
  note inst = register_local_is_transient [where new_entry = "0x30000" and new_vec = "0x30100"
      and header = "0x100000" and slide = "0x100000" and batch = "[ex_open_A]"
      and p = ex_process]
  from inst [THEN conjunct2, THEN conjunct2] ex_image_readable
  have "\<exists>p'. rebind_symbols_image 0x30000 0x30100 0x100000 0x100000 [ex_open_A] ex_process
       = Some (0, p')"
    by simp
  then obtain p' where
    r: "rebind_symbols_image 0x30000 0x30100 0x100000 0x100000 [ex_open_A] ex_process
       = Some (0, p')"
    by (rule exE)
  from ex_local r have m: "mem p' 0x108000 = 0xA00" "mem p' 0x20000 = 0x108001" by auto
  from inst [where retval = 0 and p' = p', THEN conjunct2, THEN conjunct1] r
  have "rebindings_head p' = []" "add_image_funcs p' = 0"
    "dyld_images p' = [(0x100000, 0x100000)]" "allocated p' = {}"
    by (simp_all add: ex_process_def)
  with r m show ?thesis by (intro exI conjI)
qed

text \<open>
  C10. When an allocation fails inside \<^verbatim>\<open>rebind_symbols_image\<close>, the image is walked
  all the same, with the empty registry: an iteration over a slot then changes nothing,
  so no cell of the process is written, neither a slot nor a captured original. The call
  returns \<open>-1\<close> (it does return when the image is readable); whenever it returns, its
  value is \<open>-1\<close> if an allocation failed and 0 if not, whatever the walk did.
\<close>

theorem local_allocation_failure:
  "(new_entry = 0 \<or> new_vec = 0 \<longrightarrow>
      rebind_symbols_image new_entry new_vec header slide batch p =
        map_option (Pair (- 1))
          (rebind_symbols_for_image [] header slide
             (if new_entry = 0 then p else free new_entry (malloc new_entry p))) \<and>
      (rebind_symbols_image new_entry new_vec header slide batch p = Some (retval, p') \<longrightarrow>
         mem p' = mem p)) \<and>
   (symbol_loop [] sect slide symtab strtab ind i q = Some q' \<longrightarrow> q' = q) \<and>
   (rebind_symbols_image new_entry new_vec header slide batch p = Some (retval, p') \<longrightarrow>
      retval = (if new_entry = 0 \<or> new_vec = 0 then - 1 else 0)) \<and>
   ((new_entry = 0 \<or> new_vec = 0) \<and> image_readable p header slide \<longrightarrow>
      (\<exists>p'. rebind_symbols_image new_entry new_vec header slide batch p = Some (- 1, p')))"
proof (intro conjI impI)
  show "\<exists>p'. rebind_symbols_image new_entry new_vec header slide batch p = Some (- 1, p')"
    if "(new_entry = 0 \<or> new_vec = 0) \<and> image_readable p header slide"
    using that by (rule rebind_symbols_image_fails)
next
  assume f: "new_entry = 0 \<or> new_vec = 0"
  let ?p1 = "if new_entry = 0 then p else free new_entry (malloc new_entry p)"
  from f show e: "rebind_symbols_image new_entry new_vec header slide batch p =
        map_option (Pair (- 1)) (rebind_symbols_for_image [] header slide ?p1)"
    by (auto simp add: rebind_symbols_image_eq)
  assume r: "rebind_symbols_image new_entry new_vec header slide batch p = Some (retval, p')"
  from r [unfolded e] have "rebind_symbols_for_image [] header slide ?p1 = Some p'" by auto
  then have "mem p' = mem ?p1" by (rule rebind_symbols_for_image_empty_registry_mem)
  then show "mem p' = mem p" by (simp add: free_def malloc_def split: if_splits)
next
  assume "symbol_loop [] sect slide symtab strtab ind i q = Some q'"
  from symbol_loop_cases [OF this] show "q' = q" by simp
next
  assume "rebind_symbols_image new_entry new_vec header slide batch p = Some (retval, p')"
  then show "retval = (if new_entry = 0 \<or> new_vec = 0 then - 1 else 0)"
    by (auto simp add: rebind_symbols_image_eq split: if_splits)
qed

theorem local_allocation_failure_witness:
  "(\<exists>p'. rebind_symbols_image 0 0x30100 0x100000 0x100000 [ex_open_A] ex_process
       = Some (- 1, p') \<and> mem p' = mem ex_process) \<and>
   (\<exists>p'. rebind_symbols_image 0x30000 0 0x100000 0x100000 [ex_open_A] ex_process
       = Some (- 1, p') \<and> mem p' = mem ex_process) \<and>
   (\<exists>q'. symbol_loop [] ex_la 0x100000 ex_symtab ex_strtab ex_indirect 0 ex_process = Some q' \<and>
      q' = ex_process) \<and>
   (\<exists>p'. rebind_symbols_image 0x30000 0x30100 0x100000 0x100000 [ex_open_A] ex_process
       = Some (0, p') \<and> mem p' \<noteq> mem ex_process)"
proof -
  note inst = local_allocation_failure [where header = "0x100000" and slide = "0x100000"
      and batch = "[ex_open_A]" and p = ex_process and sect = ex_la and symtab = ex_symtab
      and strtab = ex_strtab and ind = ex_indirect and i = 0 and q = ex_process]
  from inst [where new_entry = 0 and new_vec = "0x30100",
      THEN conjunct2, THEN conjunct2, THEN conjunct2] ex_image_readable
  have "\<exists>p'. rebind_symbols_image 0 0x30100 0x100000 0x100000 [ex_open_A] ex_process
       = Some (- 1, p')" by simp
  then obtain p1 where
    r1: "rebind_symbols_image 0 0x30100 0x100000 0x100000 [ex_open_A] ex_process = Some (- 1, p1)"
    by (rule exE)
  from inst [where new_entry = "0x30000" and new_vec = 0,
      THEN conjunct2, THEN conjunct2, THEN conjunct2] ex_image_readable
  have "\<exists>p'. rebind_symbols_image 0x30000 0 0x100000 0x100000 [ex_open_A] ex_process
       = Some (- 1, p')" by simp
  then obtain p2 where
    r2: "rebind_symbols_image 0x30000 0 0x100000 0x100000 [ex_open_A] ex_process
      = Some (- 1, p2)"
    by (rule exE)
  have "\<exists>q'. symbol_loop [] ex_la 0x100000 ex_symtab ex_strtab ex_indirect 0 ex_process
      = Some q'"
    by (simp add: model_defs ex_defs header_consts)
  then obtain q' where q': "symbol_loop [] ex_la 0x100000 ex_symtab ex_strtab ex_indirect 0
      ex_process = Some q'" by (rule exE)
  from inst [where new_entry = 0 and new_vec = "0x30100" and retval = "- 1" and p' = p1,
      THEN conjunct1] r1
  have m1: "mem p1 = mem ex_process" by simp
  from inst [where new_entry = "0x30000" and new_vec = 0 and retval = "- 1" and p' = p2,
      THEN conjunct1] r2
  have m2: "mem p2 = mem ex_process" by simp
  from inst [where q' = q', THEN conjunct2, THEN conjunct1] q' have qq: "q' = ex_process"
    by simp
  from ex_local obtain p3 where
    r3: "rebind_symbols_image 0x30000 0x30100 0x100000 0x100000 [ex_open_A] ex_process
       = Some (0, p3)"
    and m: "mem p3 0x108000 = 0xA00" by (elim exE conjE)
  from m have "mem p3 0x108000 \<noteq> mem ex_process 0x108000" by (simp add: ex_process_def)
  then have m3: "mem p3 \<noteq> mem ex_process" by auto
  from r1 m1 have a: "\<exists>p'. rebind_symbols_image 0 0x30100 0x100000 0x100000 [ex_open_A]
      ex_process = Some (- 1, p') \<and> mem p' = mem ex_process" by (intro exI conjI)
  from r2 m2 have b: "\<exists>p'. rebind_symbols_image 0x30000 0 0x100000 0x100000 [ex_open_A]
      ex_process = Some (- 1, p') \<and> mem p' = mem ex_process" by (intro exI conjI)
  from q' qq have c: "\<exists>q'. symbol_loop [] ex_la 0x100000 ex_symtab ex_strtab ex_indirect 0
      ex_process = Some q' \<and> q' = ex_process" by (intro exI conjI)
  from r3 m3 have d: "\<exists>p'. rebind_symbols_image 0x30000 0x30100 0x100000 0x100000 [ex_open_A]
      ex_process = Some (0, p') \<and> mem p' \<noteq> mem ex_process" by (intro exI conjI)
  from a b c d show ?thesis by (intro conjI)
qed

end
